theory Spec2Isabelle
  imports Main
begin

section \<open>The descriptor calculator of mordred (\<^verbatim>\<open>mordred/_base/calculator.py\<close>)\<close>

subsection \<open>Data model\<close>

text \<open>
  A descriptor object, as far as \<^verbatim>\<open>Calculator\<close> reads it: \<^verbatim>\<open>str(desc)\<close> is the
  canonical name, \<^verbatim>\<open>explicit_hydrogens\<close>, \<^verbatim>\<open>kekulize\<close>, \<^verbatim>\<open>require_3D\<close> and
  \<^verbatim>\<open>require_connected\<close> are its requirement attributes (already passed through
  \<^verbatim>\<open>bool\<close>), and \<^verbatim>\<open>dependencies() or {}\<close> is the dictionary from parameter names to a
  descriptor or \<^verbatim>\<open>None\<close>, kept as the list of its items in iteration order.
  A descriptor is built from its constructor arguments and builds its dependencies the same
  way, so it is a finite tree. Descriptors that compare equal in Python (the keys of
  \<^verbatim>\<open>_cache\<close>) are one value here.
\<close>

datatype desc = Desc
  (name: string)
  (explicit_hydrogens: bool)
  (kekulize: bool)
  (require_3D: bool)
  (require_connected: bool)
  (dependencies: "(string \<times> desc option) list")

text \<open>
  The objects wrapped by \<^verbatim>\<open>MissingValueException\<close> (its \<^verbatim>\<open>error\<close> attribute), and the
  exceptions (subclasses of \<^verbatim>\<open>Exception\<close>) that the code raises or that a descriptor's
  \<^verbatim>\<open>calculate\<close> may raise.
\<close>

datatype err = MultipleFragments | OtherError string

datatype exn =
    MissingValueException err
  | DuplicatedDescriptorName desc desc
  | ValueError
  | TypeError
  | AttributeError
  | OtherException string

text \<open>What \<^verbatim>\<open>_calculate\<close> yields: the raw value, \<^verbatim>\<open>Missing(error, stack)\<close> or \<^verbatim>\<open>Error(e, stack)\<close>.\<close>

datatype 'v result = Value 'v | Missing err "desc list" | Error exn "desc list"

text \<open>
  The fields of \<^verbatim>\<open>Context\<close> that the calculator reads and never writes: the prepared
  structure and its fragment count. The context's diagnostic stack is mutable and lives in
  the evaluation state below.
\<close>

record 'm Context =
  mol :: 'm
  n_frags :: int

text \<open>
  The behaviour of the descriptor classes, which the calculator only calls:
  \<^verbatim>\<open>desc.calculate(**args)\<close> (it reads the structure through \<^verbatim>\<open>desc._context\<close>), the class
  attribute \<^verbatim>\<open>rtype\<close> (a type, given by its membership test) and
  \<^verbatim>\<open>isinstance(result, Error)\<close>.
\<close>

record ('m, 'v) world =
  calculate :: "desc \<Rightarrow> 'm Context \<Rightarrow> (string \<times> 'v option) list \<Rightarrow> exn + 'v"
  rtype :: "desc \<Rightarrow> ('v \<Rightarrow> bool) option"
  is_Error :: "'v \<Rightarrow> bool"

text \<open>The registry part of a \<^verbatim>\<open>Calculator\<close> object (its \<^verbatim>\<open>__slots__\<close>).\<close>

record calculator =
  c_descriptors :: "desc list"
  c_name_dict :: "string \<rightharpoonup> desc"
  c_explicit_hydrogens :: "bool set"
  c_kekulizes :: "bool set"
  c_require_3D :: bool
  c_debug :: bool

text \<open>
  What an evaluation mutates: \<^verbatim>\<open>self._cache\<close>, the context's stack (\<^verbatim>\<open>cxt._stack\<close>), the
  set of descriptor objects that carry a \<^verbatim>\<open>_context\<close> attribute, and the trace of the
  descriptors whose \<^verbatim>\<open>calculate\<close> has been invoked, in order of invocation.
\<close>

record 'v state =
  cache :: "desc \<rightharpoonup> 'v"
  stack :: "desc list"
  has_context :: "desc set"
  calls :: "desc list"

subsection \<open>Registration\<close>

text \<open>
  \<^verbatim>\<open>Calculator._register_one\<close>. The result pairs the outcome (\<open>Inl\<close> the exception raised)
  with the calculator as the call leaves it, since the object is updated in place. The
  argument is a descriptor; the \<^verbatim>\<open>isinstance\<close> test of line 86 is in \<open>register\<close>.
\<close>

fun register_one :: "desc \<Rightarrow> bool \<Rightarrow> bool \<Rightarrow> calculator \<Rightarrow> (exn + unit) \<times> calculator"
  and register_deps :: "(string \<times> desc option) list \<Rightarrow> calculator \<Rightarrow> (exn + unit) \<times> calculator"
  where
  "register_one (Desc nm eh kk r3 rc deps) check_only ignore_3D self =
    (let d = Desc nm eh kk r3 rc deps in
     if ignore_3D \<and> r3 then (Inr (), self)
     else
       let self1 = self\<lparr>c_explicit_hydrogens := insert eh (c_explicit_hydrogens self)\<rparr>;
           self2 = self1\<lparr>c_kekulizes := insert kk (c_kekulizes self1)\<rparr>;
           self3 = self2\<lparr>c_require_3D := (c_require_3D self2 \<or> r3)\<rparr>
       in case register_deps deps self3 of
            (Inl e, self4) \<Rightarrow> (Inl e, self4)
          | (Inr u, self4) \<Rightarrow>
              if \<not> check_only then
                (case c_name_dict self4 nm of
                   Some old \<Rightarrow> (Inl (DuplicatedDescriptorName d old), self4)
                 | None \<Rightarrow>
                     (Inr (), self4\<lparr>c_name_dict := ((c_name_dict self4)(nm \<mapsto> d)),
                                   c_descriptors := c_descriptors self4 @ [d]\<rparr>))
              else (Inr (), self4))"
| "register_deps [] self = (Inr (), self)"
| "register_deps ((k, None) # rest) self = register_deps rest self"
| "register_deps ((k, Some dep) # rest) self =
    (case register_one dep True False self of
       (Inl e, self1) \<Rightarrow> (Inl e, self1)
     | (Inr u, self1) \<Rightarrow> register_deps rest self1)"

text \<open>
  What \<^verbatim>\<open>register\<close> accepts: a descriptor instance, a descriptor class (given by what its
  \<^verbatim>\<open>preset()\<close> yields), a module (given by the list that \<^verbatim>\<open>get_descriptors_from_module\<close>
  returns for it), an iterable, or any other object.
\<close>

datatype desc_like =
    Instance desc
  | DescClass "desc list"
  | Module "desc_like list"
  | Iterable "desc_like list"
  | NonDescriptor

text \<open>
  \<^verbatim>\<open>Calculator.register\<close>, with its two loops. An object that is no descriptor reaches
  \<^verbatim>\<open>_register_one\<close> and raises \<^verbatim>\<open>ValueError\<close> there (line 87).
\<close>

fun register_preset :: "desc list \<Rightarrow> bool \<Rightarrow> calculator \<Rightarrow> (exn + unit) \<times> calculator" where
  "register_preset [] ignore_3D self = (Inr (), self)"
| "register_preset (d # ds) ignore_3D self =
    (case register_one d False ignore_3D self of
       (Inl e, self1) \<Rightarrow> (Inl e, self1)
     | (Inr u, self1) \<Rightarrow> register_preset ds ignore_3D self1)"

fun register :: "desc_like \<Rightarrow> bool \<Rightarrow> calculator \<Rightarrow> (exn + unit) \<times> calculator"
  and register_each :: "desc_like list \<Rightarrow> bool \<Rightarrow> calculator \<Rightarrow> (exn + unit) \<times> calculator"
  where
  "register (DescClass ps) ignore_3D self = register_preset ps ignore_3D self"
| "register (Module xs) ignore_3D self = register_each xs ignore_3D self"
| "register (Instance d) ignore_3D self = register_one d False ignore_3D self"
| "register NonDescriptor ignore_3D self = (Inl ValueError, self)"
| "register (Iterable xs) ignore_3D self = register_each xs ignore_3D self"
| "register_each [] ignore_3D self = (Inr (), self)"
| "register_each (x # xs) ignore_3D self =
    (case register x ignore_3D self of
       (Inl e, self1) \<Rightarrow> (Inl e, self1)
     | (Inr u, self1) \<Rightarrow> register_each xs ignore_3D self1)"

text \<open>The deleter of \<^verbatim>\<open>descriptors\<close> (lines 75-80) and \<^verbatim>\<open>__init__\<close>.\<close>

definition unregister :: "calculator \<Rightarrow> calculator" where
  "unregister self =
     self\<lparr>c_descriptors := [], c_name_dict := Map.empty, c_explicit_hydrogens := {},
          c_kekulizes := {}, c_require_3D := False\<rparr>"

definition new_calculator :: calculator where
  "new_calculator =
     \<lparr>c_descriptors = [], c_name_dict = Map.empty, c_explicit_hydrogens = {},
      c_kekulizes = {}, c_require_3D = False, c_debug = False\<rparr>"

definition init :: "desc_like \<Rightarrow> bool \<Rightarrow> (exn + unit) \<times> calculator" where
  "init descs ignore_3D = register descs ignore_3D new_calculator"

text \<open>The column headers of \<^verbatim>\<open>Calculator.pandas\<close> (line 295).\<close>

definition columns :: "calculator \<Rightarrow> string list" where
  "columns self = map name (c_descriptors self)"

subsection \<open>Evaluation\<close>

text \<open>
  Modelled from the spec: \<^verbatim>\<open>Context.reset\<close>, \<^verbatim>\<open>Context.add_stack\<close> and
  \<^verbatim>\<open>Context.get_stack\<close> are called by the calculator but defined in another file. The
  context owns the diagnostic stack of the units being resolved, listed from the outermost
  requested unit down to the failing one: \<open>reset\<close> empties it, \<open>add_stack\<close> appends a unit,
  \<open>get_stack\<close> reads it.
\<close>

definition reset :: "'v state \<Rightarrow> 'v state" where
  "reset s = s\<lparr>stack := []\<rparr>"

definition add_stack :: "desc \<Rightarrow> 'v state \<Rightarrow> 'v state" where
  "add_stack d s = s\<lparr>stack := stack s @ [d]\<rparr>"

definition get_stack :: "'v state \<Rightarrow> desc list" where
  "get_stack s = stack s"

text \<open>
  Modelled from the spec: \<^verbatim>\<open>Descriptor.fail\<close> is defined in another file. It makes the
  unit fail with the given condition as a recognisable failure kind: it raises the
  missing-value exception that wraps the condition, which \<^verbatim>\<open>_calculate\<close> turns into
  \<^verbatim>\<open>Missing(e.error, stack)\<close>.
\<close>

definition fail :: "err \<Rightarrow> exn" where
  "fail e = MissingValueException e"

text \<open>\<^verbatim>\<open>Calculator._check_rtype\<close>.\<close>

definition check_rtype :: "('m, 'v) world \<Rightarrow> desc \<Rightarrow> 'v \<Rightarrow> exn + unit" where
  "check_rtype w d r =
     (case rtype w d of
        None \<Rightarrow> Inr ()
      | Some t \<Rightarrow>
          if is_Error w r then Inr ()
          else if \<not> t r then Inl TypeError
          else Inr ())"

text \<open>
  \<^verbatim>\<open>Calculator._calculate_one\<close>; \<open>calculate_args\<close> is the dictionary comprehension of lines
  149-153, which resolves the dependencies in order and stops at the first exception.
  \<open>dbg\<close> is \<^verbatim>\<open>self._debug\<close>.
\<close>

fun calculate_one ::
    "('m, 'v) world \<Rightarrow> bool \<Rightarrow> 'm Context \<Rightarrow> desc \<Rightarrow> bool \<Rightarrow> 'v state \<Rightarrow> (exn + 'v) \<times> 'v state"
  and calculate_args ::
    "('m, 'v) world \<Rightarrow> bool \<Rightarrow> 'm Context \<Rightarrow> (string \<times> desc option) list \<Rightarrow> 'v state
       \<Rightarrow> (exn + (string \<times> 'v option) list) \<times> 'v state"
  where
  "calculate_one w dbg cxt (Desc nm eh kk r3 rc deps) rst s =
    (let d = Desc nm eh kk r3 rc deps in
     case cache s d of
       Some r \<Rightarrow> (Inr r, s)
     | None \<Rightarrow>
         let s1 = (if rst then reset s else s);
             s2 = s1\<lparr>has_context := insert d (has_context s1)\<rparr>;
             s3 = add_stack d s2
         in if rc \<and> n_frags cxt \<noteq> 1 then (Inl (fail MultipleFragments), s3)
            else case calculate_args w dbg cxt deps s3 of
                   (Inl e, s4) \<Rightarrow> (Inl e, s4)
                 | (Inr args, s4) \<Rightarrow>
                     let s5 = s4\<lparr>calls := calls s4 @ [d]\<rparr>
                     in case calculate w d cxt args of
                          Inl e \<Rightarrow> (Inl e, s5)
                        | Inr r \<Rightarrow>
                            (case (if dbg then check_rtype w d r else Inr ()) of
                               Inl e \<Rightarrow> (Inl e, s5)
                             | Inr u \<Rightarrow> (Inr r, s5\<lparr>cache := ((cache s5)(d \<mapsto> r))\<rparr>)))"
| "calculate_args w dbg cxt [] s = (Inr [], s)"
| "calculate_args w dbg cxt ((k, None) # rest) s =
    (case calculate_args w dbg cxt rest s of
       (Inl e, s1) \<Rightarrow> (Inl e, s1)
     | (Inr args, s1) \<Rightarrow> (Inr ((k, None) # args), s1))"
| "calculate_args w dbg cxt ((k, Some dep) # rest) s =
    (case calculate_one w dbg cxt dep False s of
       (Inl e, s1) \<Rightarrow> (Inl e, s1)
     | (Inr v, s1) \<Rightarrow>
         (case calculate_args w dbg cxt rest s1 of
            (Inl e, s2) \<Rightarrow> (Inl e, s2)
          | (Inr args, s2) \<Rightarrow> (Inr ((k, Some v) # args), s2)))"

text \<open>
  One turn of the loop of \<^verbatim>\<open>Calculator._calculate\<close> (lines 177-185): the \<^verbatim>\<open>try\<close>, its two
  handlers and the \<^verbatim>\<open>finally\<close>. A handler reads \<^verbatim>\<open>desc._context\<close>, which raises
  \<^verbatim>\<open>AttributeError\<close> out of the loop when the attribute is absent. \<open>Inr\<close> is the value
  yielded.
\<close>

definition calculate_step ::
    "('m, 'v) world \<Rightarrow> calculator \<Rightarrow> 'm Context \<Rightarrow> desc \<Rightarrow> 'v state
       \<Rightarrow> (exn + 'v result) \<times> 'v state" where
  "calculate_step w self cxt d s =
     (case calculate_one w (c_debug self) cxt d True s of (r, s1) \<Rightarrow>
        let y = (case r of
                   Inr v \<Rightarrow> Inr (Value v)
                 | Inl (MissingValueException e) \<Rightarrow>
                     if d \<in> has_context s1 then Inr (Missing e (get_stack s1))
                     else Inl AttributeError
                 | Inl e \<Rightarrow>
                     if d \<in> has_context s1 then Inr (Error e (get_stack s1))
                     else Inl AttributeError)
        in (y, s1\<lparr>has_context := has_context s1 - {d}\<rparr>))"

text \<open>
  The loop over \<^verbatim>\<open>self.descriptors\<close>, consumed to the end as \<^verbatim>\<open>list(...)\<close> does in
  \<^verbatim>\<open>__call__\<close> and \<^verbatim>\<open>_serial\<close>: the list of the values yielded, or the exception that left
  the generator.
\<close>

fun calculate_loop ::
    "('m, 'v) world \<Rightarrow> calculator \<Rightarrow> 'm Context \<Rightarrow> desc list \<Rightarrow> 'v state
       \<Rightarrow> (exn + 'v result list) \<times> 'v state" where
  "calculate_loop w self cxt [] s = (Inr [], s)"
| "calculate_loop w self cxt (d # ds) s =
    (case calculate_step w self cxt d s of
       (Inl e, s1) \<Rightarrow> (Inl e, s1)
     | (Inr y, s1) \<Rightarrow>
         (case calculate_loop w self cxt ds s1 of
            (Inl e, s2) \<Rightarrow> (Inl e, s2)
          | (Inr ys, s2) \<Rightarrow> (Inr (y # ys), s2)))"

text \<open>\<^verbatim>\<open>Calculator._calculate\<close>: line 175 replaces the cache by an empty one, then the loop runs.\<close>

definition calculate_iter ::
    "('m, 'v) world \<Rightarrow> calculator \<Rightarrow> 'm Context \<Rightarrow> 'v state \<Rightarrow> (exn + 'v result list) \<times> 'v state" where
  "calculate_iter w self cxt s =
     calculate_loop w self cxt (c_descriptors self) (s\<lparr>cache := Map.empty\<rparr>)"

subsection \<open>Auxiliary notions\<close>

text \<open>
  The state in which \<^verbatim>\<open>_calculate_one\<close> leaves lines 141-144 on a cache miss, and the
  test of line 146 read positively.
\<close>

definition enter :: "desc \<Rightarrow> bool \<Rightarrow> 'v state \<Rightarrow> 'v state" where
  "enter d rst s = add_stack d ((if rst then reset s else s)\<lparr>has_context := insert d (has_context (if rst then reset s else s))\<rparr>)"

definition frag_ok :: "'m Context \<Rightarrow> desc \<Rightarrow> bool" where
  "frag_ok cxt d = (\<not> (require_connected d \<and> n_frags cxt \<noteq> 1))"

text \<open>
  Two runs of a request, from the states \<open>s\<close> and \<open>t\<close>, agree: they have the same outcome,
  leave the same cache, and push the same units onto the diagnostic stack.
\<close>

definition same_run :: "'a \<times> 'v state \<Rightarrow> 'v state \<Rightarrow> 'a \<times> 'v state \<Rightarrow> 'v state \<Rightarrow> bool" where
  "same_run p s q t \<longleftrightarrow>
     fst p = fst q \<and> cache (snd p) = cache (snd q) \<and>
     (\<exists>xs. stack (snd p) = stack s @ xs \<and> stack (snd q) = stack t @ xs)"

text \<open>
  The units reachable from a unit through its dependencies, the unit itself first, and the
  units reachable from the registered units of a calculator.
\<close>

fun closure :: "desc \<Rightarrow> desc list"
  and closure_deps :: "(string \<times> desc option) list \<Rightarrow> desc list"
  where
  "closure (Desc nm eh kk r3 rc deps) = Desc nm eh kk r3 rc deps # closure_deps deps"
| "closure_deps [] = []"
| "closure_deps ((k, None) # rest) = closure_deps rest"
| "closure_deps ((k, Some dep) # rest) = closure dep @ closure_deps rest"

definition reachable :: "calculator \<Rightarrow> desc list" where
  "reachable self = concat (map closure (c_descriptors self))"

text \<open>
  Lines 92-94 of \<^verbatim>\<open>_register_one\<close>, which fold the requirements of a unit into the
  aggregate state, and the relation between two calculators that says the second has the
  requirements of the listed units folded into the first.
\<close>

definition fold_flags :: "desc \<Rightarrow> calculator \<Rightarrow> calculator" where
  "fold_flags d self =
     self\<lparr>c_explicit_hydrogens := insert (explicit_hydrogens d) (c_explicit_hydrogens self),
          c_kekulizes := insert (kekulize d) (c_kekulizes self),
          c_require_3D := (c_require_3D self \<or> require_3D d)\<rparr>"

definition adds_flags :: "calculator \<Rightarrow> desc list \<Rightarrow> calculator \<Rightarrow> bool" where
  "adds_flags self us self' \<longleftrightarrow>
     c_require_3D self' = (c_require_3D self \<or> (\<exists>u\<in>set us. require_3D u)) \<and>
     c_explicit_hydrogens self' = c_explicit_hydrogens self \<union> explicit_hydrogens ` set us \<and>
     c_kekulizes self' = c_kekulizes self \<union> kekulize ` set us"

text \<open>
  The descriptor instances that \<^verbatim>\<open>register\<close> passes to \<^verbatim>\<open>_register_one\<close> for an input, in
  the order of the calls, and those among them that the test of line 89 lets through.
\<close>

fun flatten :: "desc_like \<Rightarrow> desc list"
  and flatten_each :: "desc_like list \<Rightarrow> desc list"
  where
  "flatten (DescClass ps) = ps"
| "flatten (Module xs) = flatten_each xs"
| "flatten (Instance d) = [d]"
| "flatten NonDescriptor = []"
| "flatten (Iterable xs) = flatten_each xs"
| "flatten_each [] = []"
| "flatten_each (x # xs) = flatten x @ flatten_each xs"

definition kept :: "bool \<Rightarrow> desc list \<Rightarrow> desc list" where
  "kept ignore_3D ds = filter (\<lambda>d. \<not> (ignore_3D \<and> require_3D d)) ds"

text \<open>
  A sequence of calls of \<^verbatim>\<open>register\<close> on one calculator, each with its own \<^verbatim>\<open>ignore_3D\<close>,
  up to the first call that raises, and the units that such a sequence appends.
\<close>

fun register_seq :: "(desc_like \<times> bool) list \<Rightarrow> calculator \<Rightarrow> (exn + unit) \<times> calculator" where
  "register_seq [] self = (Inr (), self)"
| "register_seq ((x, ignore_3D) # rest) self =
    (case register x ignore_3D self of
       (Inl e, self1) \<Rightarrow> (Inl e, self1)
     | (Inr u, self1) \<Rightarrow> register_seq rest self1)"

definition kept_seq :: "(desc_like \<times> bool) list \<Rightarrow> desc list" where
  "kept_seq xs = concat (map (\<lambda>(x, ignore_3D). kept ignore_3D (flatten x)) xs)"

text \<open>
  The aggregate state agrees with the registered units: the 3D flag is the disjunction of
  \<^verbatim>\<open>require_3D\<close> over the reachable units, and the two sets hold the values of
  \<^verbatim>\<open>explicit_hydrogens\<close> and of \<^verbatim>\<open>kekulize\<close> of the reachable units.
\<close>

definition agg_inv :: "calculator \<Rightarrow> bool" where
  "agg_inv self \<longleftrightarrow>
     c_require_3D self = (\<exists>u\<in>set (reachable self). require_3D u) \<and>
     c_explicit_hydrogens self = explicit_hydrogens ` set (reachable self) \<and>
     c_kekulizes self = kekulize ` set (reachable self)"

text \<open>
  The second calculator is the first after the listed units have been registered: they are
  appended to the output sequence and the requirements of all units reachable from them are
  folded in.
\<close>

definition registered :: "calculator \<Rightarrow> desc list \<Rightarrow> calculator \<Rightarrow> bool" where
  "registered self ds self' \<longleftrightarrow>
     c_descriptors self' = c_descriptors self @ ds \<and>
     adds_flags self (concat (map closure ds)) self' \<and> c_debug self' = c_debug self"

text \<open>
  The name lookup agrees with the output sequence: the registered units have pairwise
  different canonical names, and the lookup maps a name to a unit exactly when that unit is
  registered under that name.
\<close>

definition names_inv :: "calculator \<Rightarrow> bool" where
  "names_inv self \<longleftrightarrow>
     distinct (map name (c_descriptors self)) \<and>
     (\<forall>n e. c_name_dict self n = Some e \<longleftrightarrow> e \<in> set (c_descriptors self) \<and> name e = n)"

text \<open>The value that a turn of the loop yields for an outcome of \<^verbatim>\<open>_calculate_one\<close>.\<close>

fun to_result :: "exn + 'v \<Rightarrow> desc list \<Rightarrow> 'v result" where
  "to_result (Inr v) st = Value v"
| "to_result (Inl (MissingValueException e)) st = Missing e st"
| "to_result (Inl x) st = Error x st"

subsection \<open>A small registry for concrete runs\<close>

text \<open>
  Units without dependencies: \<open>dA\<close> computes a value, \<open>dM\<close> raises a missing-value
  condition, \<open>dE\<close> raises another exception, \<open>dH\<close> needs explicit hydrogens and \<open>dT\<close>
  needs 3D coordinates. \<open>dB\<close> depends on \<open>dA\<close>, \<open>dF\<close> on \<open>dM\<close>, \<open>dU\<close> on \<open>dT\<close>, and
  \<open>dC\<close> depends on \<open>dA\<close> and requires a single connected fragment; \<open>dD\<close> depends on
  \<open>dA\<close>, on nothing for its second parameter, and on \<open>dB\<close>.
\<close>

definition dA :: desc where "dA = Desc ''A'' False False False False []"
definition dM :: desc where "dM = Desc ''M'' False False False False []"
definition dE :: desc where "dE = Desc ''E'' False False False False []"
definition dH :: desc where "dH = Desc ''H'' True False False False []"
definition dT :: desc where "dT = Desc ''T'' False False True False []"
definition dB :: desc where "dB = Desc ''B'' False False False False [(''a'', Some dA)]"
definition dF :: desc where "dF = Desc ''F'' False False False False [(''m'', Some dM)]"
definition dU :: desc where "dU = Desc ''U'' False False False False [(''t'', Some dT)]"
definition dC :: desc where "dC = Desc ''C'' False False False True [(''a'', Some dA)]"
definition dD :: desc where
  "dD = Desc ''D'' False False False False [(''a'', Some dA), (''n'', None), (''b'', Some dB)]"

definition ex_world :: "(unit, nat) world" where
  "ex_world =
     \<lparr>calculate = (\<lambda>d cxt args.
         if name d = ''M'' then Inl (MissingValueException (OtherError ''undefined''))
         else if name d = ''E'' then Inl (OtherException ''boom'')
         else Inr (length args)),
      rtype = (\<lambda>d. None),
      is_Error = (\<lambda>v. False)\<rparr>"

definition ex_cxt :: "int \<Rightarrow> unit Context" where
  "ex_cxt n = \<lparr>mol = (), n_frags = n\<rparr>"

definition ex_state :: "nat state" where
  "ex_state = \<lparr>cache = Map.empty, stack = [], has_context = {}, calls = []\<rparr>"

definition ex_calc :: "desc list \<Rightarrow> calculator" where
  "ex_calc ds = new_calculator\<lparr>c_descriptors := ds\<rparr>"

subsection \<open>How a request changes the state\<close>

lemma calculate_one_unfold:
  "calculate_one w dbg cxt d rst s =
    (case cache s d of
       Some r \<Rightarrow> (Inr r, s)
     | None \<Rightarrow>
         if \<not> frag_ok cxt d then (Inl (fail MultipleFragments), enter d rst s)
         else case calculate_args w dbg cxt (dependencies d) (enter d rst s) of
                (Inl e, s4) \<Rightarrow> (Inl e, s4)
              | (Inr args, s4) \<Rightarrow>
                  (case calculate w d cxt args of
                     Inl e \<Rightarrow> (Inl e, s4\<lparr>calls := calls s4 @ [d]\<rparr>)
                   | Inr r \<Rightarrow>
                       (case (if dbg then check_rtype w d r else Inr ()) of
                          Inl e \<Rightarrow> (Inl e, s4\<lparr>calls := calls s4 @ [d]\<rparr>)
                        | Inr u \<Rightarrow> (Inr r, s4\<lparr>calls := calls s4 @ [d], cache := ((cache s4)(d \<mapsto> r))\<rparr>))))"
proof (cases d)
  case (Desc nm eh kk r3 rc deps)
  show ?thesis
  proof (cases "cache s d")
    case None
    then show ?thesis unfolding Desc
      by (simp add: enter_def frag_ok_def Let_def split: prod.split sum.split)
  next
    case (Some v)
    then show ?thesis unfolding Desc by simp
  qed
qed


lemma frame_rule:
  fixes R :: "'m Context \<Rightarrow> 'v state \<Rightarrow> 'v state \<Rightarrow> bool"
  assumes rfl: "\<And>c s. R c s s"
    and trn: "\<And>c s t u. R c s t \<Longrightarrow> R c t u \<Longrightarrow> R c s u"
    and ent: "\<And>c d s. cache s d = None \<Longrightarrow> R c s (enter d False s)"
    and cll: "\<And>c d s. frag_ok c d \<Longrightarrow> R c s (s\<lparr>calls := calls s @ [d]\<rparr>)"
    and sto: "\<And>c d r s t. frag_ok c d \<Longrightarrow> cache s d = None \<Longrightarrow> R c s t \<Longrightarrow> R c s (t\<lparr>cache := ((cache t)(d \<mapsto> r))\<rparr>)"
  shows "rst = False \<longrightarrow> R cxt s (snd (calculate_one w dbg cxt d rst s))"
    and "R cxt s (snd (calculate_args w dbg cxt deps s))"
proof (induction w dbg cxt d rst s and w dbg cxt deps s rule: calculate_one_calculate_args.induct)
  case (1 w dbg cxt nm eh kk r3 rc deps rst s)
  define d where "d = Desc nm eh kk r3 rc deps"
  show ?case
  proof (intro impI)
    assume rst: "rst = False"
    show "R cxt s (snd (calculate_one w dbg cxt (Desc nm eh kk r3 rc deps) rst s))"
    proof (cases "cache s d")
      case (Some v)
      then show ?thesis unfolding d_def[symmetric] by (simp add: calculate_one_unfold rfl)
    next
      case None
      show ?thesis
      proof (cases "frag_ok cxt d")
        case False
        then show ?thesis unfolding d_def[symmetric] using None rst
          by (simp add: calculate_one_unfold ent[OF None])
      next
        case True
        obtain ra s4 where p: "calculate_args w dbg cxt deps (enter d False s) = (ra, s4)"
          by (cases "calculate_args w dbg cxt deps (enter d False s)")
        have "R cxt (enter d False s) (snd (calculate_args w dbg cxt deps (enter d False s)))"
          using 1[OF refl _ refl refl refl] None True rst
          by (simp add: d_def enter_def frag_ok_def)
        then have a: "R cxt s s4" using p trn[OF ent[OF None]] by simp
        have b: "R cxt s (s4\<lparr>calls := calls s4 @ [d]\<rparr>)" by (rule trn[OF a cll[OF True]])
        have c: "R cxt s (s4\<lparr>calls := calls s4 @ [d], cache := ((cache s4)(d \<mapsto> r))\<rparr>)" for r
          using sto[OF True None b, of r] by simp
        have dd: "dependencies d = deps" by (simp add: d_def)
        show ?thesis unfolding d_def[symmetric] using None True rst p a b c
          by (simp add: calculate_one_unfold dd split: sum.splits)
      qed
    qed
  qed
next
  case (2 w dbg cxt s)
  show ?case by (simp add: rfl)
next
  case (3 w dbg cxt k rest s)
  obtain r s1 where p: "calculate_args w dbg cxt rest s = (r, s1)" by (cases "calculate_args w dbg cxt rest s")
  then show ?case using 3 by (cases r) simp_all
next
  case (4 w dbg cxt k dep rest s)
  obtain r s1 where p: "calculate_one w dbg cxt dep False s = (r, s1)" by (cases "calculate_one w dbg cxt dep False s")
  have a: "R cxt s s1" using 4(1) p by simp
  show ?case
  proof (cases r)
    case (Inl e)
    then show ?thesis using p a by simp
  next
    case (Inr v)
    have "R cxt s1 (snd (calculate_args w dbg cxt rest s1))" using 4(2)[OF p[symmetric] Inr] .
    with a have "R cxt s (snd (calculate_args w dbg cxt rest s1))" by (rule trn)
    moreover obtain r2 s2 where "calculate_args w dbg cxt rest s1 = (r2, s2)" by (cases "calculate_args w dbg cxt rest s1")
    ultimately show ?thesis using p Inr by (cases r2) simp_all
  qed
qed


lemma enter_simps [simp]:
  "cache (enter d rst s) = cache s"
  "calls (enter d rst s) = calls s"
  "has_context (enter d rst s) = insert d (has_context s)"
  "stack (enter d rst s) = (if rst then [] else stack s) @ [d]"
  by (simp_all add: enter_def add_stack_def reset_def)

lemma calculate_one_reset:
  "calculate_one w dbg cxt d True s =
     (case cache s d of Some r \<Rightarrow> (Inr r, s) | None \<Rightarrow> calculate_one w dbg cxt d False (reset s))"
proof -
  have "enter d True s = enter d False (reset s)" by (simp add: enter_def reset_def)
  moreover have "cache (reset s) = cache s" by (simp add: reset_def)
  ultimately show ?thesis by (simp add: calculate_one_unfold[of _ _ _ _ True] calculate_one_unfold[of _ _ _ _ False] split: option.split)
qed

lemma cache_mono_F:
  "cache s \<subseteq>\<^sub>m cache (snd (calculate_one w dbg cxt d False s))"
  "cache s \<subseteq>\<^sub>m cache (snd (calculate_args w dbg cxt deps s))"
  using frame_rule(1)[where R="\<lambda>c s t. cache s \<subseteq>\<^sub>m cache t" and rst=False and s=s and cxt=cxt and w=w and dbg=dbg and d=d]
    frame_rule(2)[where R="\<lambda>c s t. cache s \<subseteq>\<^sub>m cache t" and s=s and cxt=cxt and w=w and dbg=dbg and deps=deps]
  by (auto simp: map_le_def dom_def)

lemma hc_mono_F:
  "has_context s \<subseteq> has_context (snd (calculate_one w dbg cxt d False s))"
  "has_context s \<subseteq> has_context (snd (calculate_args w dbg cxt deps s))"
proof -
  let ?R = "\<lambda>(c::'m Context) (s::'v state) t. has_context s \<subseteq> has_context t"
  have 1: "\<And>c s. ?R c s s" by simp
  have 2: "\<And>c s t u. ?R c s t \<Longrightarrow> ?R c t u \<Longrightarrow> ?R c s u" by blast
  have 3: "\<And>c d s. ?R c s (enter d False s)" by auto
  have 4: "\<And>c d s. frag_ok c d \<Longrightarrow> ?R c s (s\<lparr>calls := calls s @ [d]\<rparr>)" by simp
  have 5: "\<And>c d r s t. frag_ok c d \<Longrightarrow> cache s d = None \<Longrightarrow> ?R c s t \<Longrightarrow> ?R c s (t\<lparr>cache := ((cache t)(d \<mapsto> r))\<rparr>)" by simp
  show "has_context s \<subseteq> has_context (snd (calculate_one w dbg cxt d False s))"
    using frame_rule(1)[where R="?R" and rst=False, OF 1 2 3 4 5] by simp
  show "has_context s \<subseteq> has_context (snd (calculate_args w dbg cxt deps s))"
    using frame_rule(2)[where R="?R", OF 1 2 3 4 5] by simp
qed

lemma stack_F:
  "\<exists>xs. stack (snd (calculate_one w dbg cxt d False s)) = stack s @ xs"
  "\<exists>xs. stack (snd (calculate_args w dbg cxt deps s)) = stack s @ xs"
proof -
  let ?R = "\<lambda>(c::'m Context) (s::'v state) t. \<exists>xs. stack t = stack s @ xs"
  have 1: "\<And>c s. ?R c s s" by simp
  have 2: "\<And>c s t u. ?R c s t \<Longrightarrow> ?R c t u \<Longrightarrow> ?R c s u" by (metis append.assoc)
  have 3: "\<And>c d s. ?R c s (enter d False s)" by simp
  have 4: "\<And>c d s. frag_ok c d \<Longrightarrow> ?R c s (s\<lparr>calls := calls s @ [d]\<rparr>)" by simp
  have 5: "\<And>c d r s t. frag_ok c d \<Longrightarrow> cache s d = None \<Longrightarrow> ?R c s t \<Longrightarrow> ?R c s (t\<lparr>cache := ((cache t)(d \<mapsto> r))\<rparr>)" by simp
  show "\<exists>xs. stack (snd (calculate_one w dbg cxt d False s)) = stack s @ xs"
    using frame_rule(1)[where R="?R" and rst=False, OF 1 2 3 4 5] by simp
  show "\<exists>xs. stack (snd (calculate_args w dbg cxt deps s)) = stack s @ xs"
    using frame_rule(2)[where R="?R", OF 1 2 3 4 5] by simp
qed

lemma calls_F:
  "\<exists>cs. calls (snd (calculate_one w dbg cxt d False s)) = calls s @ cs \<and> (\<forall>u\<in>set cs. frag_ok cxt u)"
  "\<exists>cs. calls (snd (calculate_args w dbg cxt deps s)) = calls s @ cs \<and> (\<forall>u\<in>set cs. frag_ok cxt u)"
proof -
  let ?R = "\<lambda>(c::'m Context) (s::'v state) t. \<exists>cs. calls t = calls s @ cs \<and> (\<forall>u\<in>set cs. frag_ok c u)"
  have 1: "\<And>c s. ?R c s s" by simp
  have 2: "?R c s u" if a: "?R c s t" and b: "?R c t u" for c s t u
  proof -
    from a obtain cs where cs: "calls t = calls s @ cs" "\<forall>u\<in>set cs. frag_ok c u" by blast
    from b obtain ds where ds: "calls u = calls t @ ds" "\<forall>u\<in>set ds. frag_ok c u" by blast
    have "calls u = calls s @ (cs @ ds)" using cs ds by simp
    moreover have "\<forall>u\<in>set (cs @ ds). frag_ok c u" using cs ds by auto
    ultimately show ?thesis by blast
  qed
  have 3: "\<And>c d s. ?R c s (enter d False s)" by simp
  have 4: "\<And>c d s. frag_ok c d \<Longrightarrow> ?R c s (s\<lparr>calls := calls s @ [d]\<rparr>)" by simp
  have 5: "\<And>c d r s t. frag_ok c d \<Longrightarrow> cache s d = None \<Longrightarrow> ?R c s t \<Longrightarrow> ?R c s (t\<lparr>cache := ((cache t)(d \<mapsto> r))\<rparr>)" by simp
  show "\<exists>cs. calls (snd (calculate_one w dbg cxt d False s)) = calls s @ cs \<and> (\<forall>u\<in>set cs. frag_ok cxt u)"
    using frame_rule(1)[where R="?R" and rst=False, OF 1 2 3 4 5] by simp
  show "\<exists>cs. calls (snd (calculate_args w dbg cxt deps s)) = calls s @ cs \<and> (\<forall>u\<in>set cs. frag_ok cxt u)"
    using frame_rule(2)[where R="?R", OF 1 2 3 4 5] by simp
qed

lemma newcache_F:
  "\<forall>u. cache (snd (calculate_one w dbg cxt d False s)) u \<noteq> None \<longrightarrow> cache s u \<noteq> None \<or> frag_ok cxt u"
  "\<forall>u. cache (snd (calculate_args w dbg cxt deps s)) u \<noteq> None \<longrightarrow> cache s u \<noteq> None \<or> frag_ok cxt u"
proof -
  let ?R = "\<lambda>(c::'m Context) (s::'v state) t. \<forall>u. cache t u \<noteq> None \<longrightarrow> cache s u \<noteq> None \<or> frag_ok c u"
  have 1: "\<And>c s. ?R c s s" by simp
  have 2: "\<And>c s t u. ?R c s t \<Longrightarrow> ?R c t u \<Longrightarrow> ?R c s u" by blast
  have 3: "\<And>c d s. ?R c s (enter d False s)" by simp
  have 4: "\<And>c d s. frag_ok c d \<Longrightarrow> ?R c s (s\<lparr>calls := calls s @ [d]\<rparr>)" by simp
  have 5: "\<And>c d r s t. frag_ok c d \<Longrightarrow> cache s d = None \<Longrightarrow> ?R c s t \<Longrightarrow> ?R c s (t\<lparr>cache := ((cache t)(d \<mapsto> r))\<rparr>)" by simp
  show "\<forall>u. cache (snd (calculate_one w dbg cxt d False s)) u \<noteq> None \<longrightarrow> cache s u \<noteq> None \<or> frag_ok cxt u"
    using frame_rule(1)[where R="?R" and rst=False, OF 1 2 3 4 5] by simp
  show "\<forall>u. cache (snd (calculate_args w dbg cxt deps s)) u \<noteq> None \<longrightarrow> cache s u \<noteq> None \<or> frag_ok cxt u"
    using frame_rule(2)[where R="?R", OF 1 2 3 4 5] by simp
qed

lemma reset_simps [simp]:
  "cache (reset s) = cache s"
  "calls (reset s) = calls s"
  "has_context (reset s) = has_context s"
  "stack (reset s) = []"
  by (simp_all add: reset_def)

lemma calculate_one_any:
  "calculate_one w dbg cxt d rst s =
     (case cache s d of Some r \<Rightarrow> (Inr r, s)
      | None \<Rightarrow> calculate_one w dbg cxt d False (if rst then reset s else s))"
  by (cases rst) (simp_all add: calculate_one_reset, simp add: calculate_one_unfold split: option.split)

lemma cache_mono:
  "cache s \<subseteq>\<^sub>m cache (snd (calculate_one w dbg cxt d rst s))"
  using cache_mono_F(1)[of "if rst then reset s else s" w dbg cxt d]
  by (subst calculate_one_any, cases rst) (simp_all split: option.split)

lemma hc_mono:
  "has_context s \<subseteq> has_context (snd (calculate_one w dbg cxt d rst s))"
  using hc_mono_F(1)[of "if rst then reset s else s" w dbg cxt d]
  by (subst calculate_one_any, cases rst) (simp_all split: option.split)

lemma calls_app:
  "\<exists>cs. calls (snd (calculate_one w dbg cxt d rst s)) = calls s @ cs \<and> (\<forall>u\<in>set cs. frag_ok cxt u)"
  using calls_F(1)[of w dbg cxt d "if rst then reset s else s"]
  by (subst calculate_one_any, cases rst) (simp_all split: option.split)

lemma newcache:
  "\<forall>u. cache (snd (calculate_one w dbg cxt d rst s)) u \<noteq> None \<longrightarrow> cache s u \<noteq> None \<or> frag_ok cxt u"
  using newcache_F(1)[of w dbg cxt d "if rst then reset s else s"]
  by (subst calculate_one_any, cases rst) (simp_all split: option.split)

lemma calculate_one_Inr:
  assumes "calculate_one w dbg cxt d rst s = (Inr v, s')"
  shows "cache s' d = Some v"
  using assms
  by (auto simp: calculate_one_unfold split: option.splits if_splits prod.splits sum.splits)

lemma calculate_one_Inl:
  assumes "calculate_one w dbg cxt d rst s = (Inl e, s')"
  shows "cache s d = None" and "d \<in> has_context s'"
    and "\<exists>xs. stack s' = (if rst then [] else stack s) @ d # xs"
proof -
  show miss: "cache s d = None" using assms by (cases "cache s d") (simp_all add: calculate_one_unfold)
  let ?e = "enter d rst s"
  let ?s4 = "snd (calculate_args w dbg cxt (dependencies d) ?e)"
  have s': "s' = ?e \<or> s' = ?s4 \<or> s' = ?s4\<lparr>calls := calls ?s4 @ [d]\<rparr>"
    using assms miss
    by (auto simp: calculate_one_unfold split: if_splits prod.splits sum.splits)
  have h: "d \<in> has_context ?s4" using hc_mono_F(2)[of ?e w dbg cxt "dependencies d"] by auto
  obtain xs where xs: "stack ?s4 = stack ?e @ xs" using stack_F(2)[of w dbg cxt "dependencies d" ?e] by blast
  show "d \<in> has_context s'" using s' h by auto
  show "\<exists>xs. stack s' = (if rst then [] else stack s) @ d # xs" using s' xs by auto
qed

lemma calculate_step_eq:
  "calculate_step w self cxt d s =
     (case calculate_one w (c_debug self) cxt d True s of
        (r, s1) \<Rightarrow> (Inr (to_result r (stack s1)), s1\<lparr>has_context := has_context s1 - {d}\<rparr>))"
proof (cases "calculate_one w (c_debug self) cxt d True s")
  case (Pair r s1)
  show ?thesis
  proof (cases r)
    case (Inr v)
    then show ?thesis using Pair by (simp add: calculate_step_def)
  next
    case (Inl e)
    then have "d \<in> has_context s1" using calculate_one_Inl(2) Pair by blast
    then show ?thesis using Pair Inl by (cases e) (simp_all add: calculate_step_def get_stack_def)
  qed
qed

lemma calculate_step_fst:
  "fst (calculate_step w self cxt d s) =
     Inr (to_result (fst (calculate_one w (c_debug self) cxt d True s))
            (stack (snd (calculate_one w (c_debug self) cxt d True s))))"
  by (simp add: calculate_step_eq split: prod.split)

lemma calculate_loop_Inr:
  "\<exists>rs. fst (calculate_loop w self cxt ds s) = Inr rs \<and> length rs = length ds"
proof (induction ds arbitrary: s)
  case Nil
  show ?case by simp
next
  case (Cons d ds)
  obtain y s1 where st: "calculate_step w self cxt d s = (y, s1)" by (cases "calculate_step w self cxt d s")
  obtain r where y: "y = Inr r" using calculate_step_fst[of w self cxt d s] st by simp
  obtain ys s2 where lp: "calculate_loop w self cxt ds s1 = (ys, s2)" by (cases "calculate_loop w self cxt ds s1")
  obtain rs where rs: "ys = Inr rs" "length rs = length ds" using Cons[of s1] lp by auto
  show ?case using st y lp rs by simp
qed

lemma calculate_loop_Cons:
  "snd (calculate_loop w self cxt (d # ds) s) =
     snd (calculate_loop w self cxt ds (snd (calculate_step w self cxt d s)))"
  "fst (calculate_loop w self cxt ds (snd (calculate_step w self cxt d s))) = Inr rs \<Longrightarrow>
   fst (calculate_loop w self cxt (d # ds) s) =
     Inr (to_result (fst (calculate_one w (c_debug self) cxt d True s))
            (stack (snd (calculate_one w (c_debug self) cxt d True s))) # rs)"
proof -
  obtain y s1 where st: "calculate_step w self cxt d s = (y, s1)" by (cases "calculate_step w self cxt d s")
  have y: "y = Inr (to_result (fst (calculate_one w (c_debug self) cxt d True s))
            (stack (snd (calculate_one w (c_debug self) cxt d True s))))"
    using calculate_step_fst[of w self cxt d s] st by simp
  obtain ys s2 where lp: "calculate_loop w self cxt ds s1 = (ys, s2)" by (cases "calculate_loop w self cxt ds s1")
  obtain rs' where rs': "ys = Inr rs'" using calculate_loop_Inr[of w self cxt ds s1] lp by auto
  show "snd (calculate_loop w self cxt (d # ds) s) =
     snd (calculate_loop w self cxt ds (snd (calculate_step w self cxt d s)))"
    using st y lp rs' by simp
  show "fst (calculate_loop w self cxt ds (snd (calculate_step w self cxt d s))) = Inr rs \<Longrightarrow>
   fst (calculate_loop w self cxt (d # ds) s) =
     Inr (to_result (fst (calculate_one w (c_debug self) cxt d True s))
            (stack (snd (calculate_one w (c_debug self) cxt d True s))) # rs)"
    using st y lp rs' by simp
qed

lemma calculate_loop_nth:
  assumes "fst (calculate_loop w self cxt ds s) = Inr rs" and "i < length ds"
  shows "rs ! i =
     to_result (fst (calculate_one w (c_debug self) cxt (ds ! i) True
                       (snd (calculate_loop w self cxt (take i ds) s))))
       (stack (snd (calculate_one w (c_debug self) cxt (ds ! i) True
                       (snd (calculate_loop w self cxt (take i ds) s)))))"
  using assms
proof (induction ds arbitrary: s rs i)
  case Nil
  then show ?case by simp
next
  case (Cons d ds)
  let ?s1 = "snd (calculate_step w self cxt d s)"
  obtain rs' where rs': "fst (calculate_loop w self cxt ds ?s1) = Inr rs'"
    using calculate_loop_Inr[of w self cxt ds ?s1] by blast
  have rs: "rs = to_result (fst (calculate_one w (c_debug self) cxt d True s))
            (stack (snd (calculate_one w (c_debug self) cxt d True s))) # rs'"
    using calculate_loop_Cons(2)[OF rs'] Cons.prems(1) by simp
  show ?case
  proof (cases i)
    case 0
    then show ?thesis using rs by simp
  next
    case (Suc j)
    then have j: "j < length ds" using Cons.prems(2) by simp
    have "rs' ! j = to_result (fst (calculate_one w (c_debug self) cxt (ds ! j) True
                       (snd (calculate_loop w self cxt (take j ds) ?s1))))
       (stack (snd (calculate_one w (c_debug self) cxt (ds ! j) True
                       (snd (calculate_loop w self cxt (take j ds) ?s1)))))"
      using Cons.IH[OF rs' j] .
    then show ?thesis using Suc rs by (simp add: calculate_loop_Cons(1) del: calculate_loop.simps)
  qed
qed

lemma calculate_step_snd [simp]:
  "cache (snd (calculate_step w self cxt d s)) = cache (snd (calculate_one w (c_debug self) cxt d True s))"
  "calls (snd (calculate_step w self cxt d s)) = calls (snd (calculate_one w (c_debug self) cxt d True s))"
  "stack (snd (calculate_step w self cxt d s)) = stack (snd (calculate_one w (c_debug self) cxt d True s))"
  "has_context (snd (calculate_step w self cxt d s)) = has_context (snd (calculate_one w (c_debug self) cxt d True s)) - {d}"
  by (simp_all add: calculate_step_eq split: prod.split)

lemma loop_calls:
  "\<exists>cs. calls (snd (calculate_loop w self cxt ds s)) = calls s @ cs \<and> (\<forall>u\<in>set cs. frag_ok cxt u)"
proof (induction ds arbitrary: s)
  case Nil
  show ?case by simp
next
  case (Cons d ds)
  let ?s1 = "snd (calculate_step w self cxt d s)"
  obtain cs where cs: "calls ?s1 = calls s @ cs" "\<forall>u\<in>set cs. frag_ok cxt u"
    using calls_app[of w "c_debug self" cxt d True s] by auto
  obtain cs' where cs': "calls (snd (calculate_loop w self cxt ds ?s1)) = calls ?s1 @ cs'" "\<forall>u\<in>set cs'. frag_ok cxt u"
    using Cons[of ?s1] by blast
  have "calls (snd (calculate_loop w self cxt (d # ds) s)) = calls s @ (cs @ cs')"
    using cs cs' by (simp add: calculate_loop_Cons(1) del: calculate_loop.simps)
  moreover have "\<forall>u\<in>set (cs @ cs'). frag_ok cxt u" using cs cs' by auto
  ultimately show ?case by blast
qed

lemma loop_newcache:
  "cache (snd (calculate_loop w self cxt ds s)) u \<noteq> None \<Longrightarrow> cache s u \<noteq> None \<or> frag_ok cxt u"
proof (induction ds arbitrary: s)
  case Nil
  then show ?case by simp
next
  case (Cons d ds)
  let ?s1 = "snd (calculate_step w self cxt d s)"
  have "cache (snd (calculate_loop w self cxt ds ?s1)) u \<noteq> None"
    using Cons.prems by (simp add: calculate_loop_Cons(1) del: calculate_loop.simps)
  then have "cache ?s1 u \<noteq> None \<or> frag_ok cxt u" using Cons.IH by blast
  then show ?case using newcache[of w "c_debug self" cxt d True s] by auto
qed

lemma loop_cache_mono:
  "cache s \<subseteq>\<^sub>m cache (snd (calculate_loop w self cxt ds s))"
proof (induction ds arbitrary: s)
  case Nil
  show ?case by simp
next
  case (Cons d ds)
  let ?s1 = "snd (calculate_step w self cxt d s)"
  have "cache s \<subseteq>\<^sub>m cache ?s1" using cache_mono[of s w "c_debug self" cxt d True] by simp
  moreover have "cache ?s1 \<subseteq>\<^sub>m cache (snd (calculate_loop w self cxt ds ?s1))" using Cons .
  ultimately show ?case
    by (simp add: calculate_loop_Cons(1) del: calculate_loop.simps) (rule map_le_trans)
qed

lemma calculate_one_not_frag_ok:
  assumes "cache s d = None" and "\<not> frag_ok cxt d"
  shows "calculate_one w dbg cxt d rst s = (Inl (MissingValueException MultipleFragments), enter d rst s)"
  using assms by (simp add: calculate_one_unfold fail_def)

lemma calculate_args_None:
  "calculate_args w dbg cxt (map (\<lambda>k. (k, None)) ks) s = (Inr (map (\<lambda>k. (k, None)) ks), s)"
  by (induction ks) simp_all

lemma size_dep:
  "(k, Some dep) \<in> set deps \<Longrightarrow> size dep < size (Desc nm eh kk r3 rc deps)"
  by (induction deps) auto

lemma calls_size:
  "\<exists>cs. calls (snd (calculate_one w dbg cxt d rst s)) = calls s @ cs \<and> (\<forall>u\<in>set cs. size u \<le> size d)"
  "\<exists>cs. calls (snd (calculate_args w dbg cxt deps s)) = calls s @ cs \<and>
        (\<forall>u\<in>set cs. \<exists>k dep. (k, Some dep) \<in> set deps \<and> size u \<le> size dep)"
proof (induction w dbg cxt d rst s and w dbg cxt deps s rule: calculate_one_calculate_args.induct)
  case (1 w dbg cxt nm eh kk r3 rc deps rst s)
  define d where "d = Desc nm eh kk r3 rc deps"
  have dd: "dependencies d = deps" by (simp add: d_def)
  show ?case unfolding d_def[symmetric]
  proof (cases "cache s d = None \<and> frag_ok cxt d")
    case False
    then have "calls (snd (calculate_one w dbg cxt d rst s)) = calls s"
      by (auto simp: calculate_one_unfold split: option.splits)
    then show "\<exists>cs. calls (snd (calculate_one w dbg cxt d rst s)) = calls s @ cs \<and> (\<forall>u\<in>set cs. size u \<le> size d)"
      by simp
  next
    case True
    let ?e = "enter d rst s"
    obtain ra s4 where p: "calculate_args w dbg cxt deps ?e = (ra, s4)"
      by (cases "calculate_args w dbg cxt deps ?e")
    have "\<exists>cs. calls (snd (calculate_args w dbg cxt deps ?e)) = calls ?e @ cs \<and>
        (\<forall>u\<in>set cs. \<exists>k dep. (k, Some dep) \<in> set deps \<and> size u \<le> size dep)"
      using 1[OF refl _ refl refl refl] True by (simp add: d_def enter_def frag_ok_def)
    then obtain cs where cs: "calls s4 = calls s @ cs"
      "\<forall>u\<in>set cs. \<exists>k dep. (k, Some dep) \<in> set deps \<and> size u \<le> size dep" using p by auto
    have lt: "\<forall>u\<in>set cs. size u \<le> size d" using cs(2) size_dep[of _ _ deps nm eh kk r3 rc]
      unfolding d_def by fastforce
    have "calls (snd (calculate_one w dbg cxt d rst s)) = calls s4 \<or>
          calls (snd (calculate_one w dbg cxt d rst s)) = calls s4 @ [d]"
      using True p by (auto simp: calculate_one_unfold dd split: sum.splits)
    then show "\<exists>cs. calls (snd (calculate_one w dbg cxt d rst s)) = calls s @ cs \<and> (\<forall>u\<in>set cs. size u \<le> size d)"
    proof
      assume "calls (snd (calculate_one w dbg cxt d rst s)) = calls s4"
      then show ?thesis using cs(1) lt by (intro exI[of _ cs]) simp
    next
      assume "calls (snd (calculate_one w dbg cxt d rst s)) = calls s4 @ [d]"
      then have "calls (snd (calculate_one w dbg cxt d rst s)) = calls s @ (cs @ [d])" using cs(1) by simp
      moreover have "\<forall>u\<in>set (cs @ [d]). size u \<le> size d" using lt by auto
      ultimately show ?thesis by (intro exI[of _ "cs @ [d]"]) simp
    qed
  qed
next
  case (2 w dbg cxt s)
  show ?case by simp
next
  case (3 w dbg cxt k rest s)
  obtain r s1 where p: "calculate_args w dbg cxt rest s = (r, s1)" by (cases "calculate_args w dbg cxt rest s")
  have e: "calls (snd (calculate_args w dbg cxt ((k, None) # rest) s)) = calls s1"
    using p by (cases r) simp_all
  obtain cs where cs: "calls s1 = calls s @ cs"
    "\<forall>u\<in>set cs. \<exists>k dep. (k, Some dep) \<in> set rest \<and> size u \<le> size dep" using 3 p by auto
  have "\<forall>u\<in>set cs. \<exists>k' dep'. (k', Some dep') \<in> set ((k, None) # rest) \<and> size u \<le> size dep'"
  proof
    fix u assume "u \<in> set cs"
    then obtain k' dep' where "(k', Some dep') \<in> set rest" "size u \<le> size dep'" using cs(2) by blast
    then show "\<exists>k' dep'. (k', Some dep') \<in> set ((k, None) # rest) \<and> size u \<le> size dep'"
      by (intro exI[of _ k'] exI[of _ dep']) simp
  qed
  then show ?case using e cs(1) by (intro exI[of _ cs]) simp
next
  case (4 w dbg cxt k dep rest s)
  obtain r s1 where p: "calculate_one w dbg cxt dep False s = (r, s1)" by (cases "calculate_one w dbg cxt dep False s")
  obtain cs where cs: "calls s1 = calls s @ cs" "\<forall>u\<in>set cs. size u \<le> size dep" using 4(1) p by auto
  have A: "\<forall>u\<in>set cs. \<exists>k' dep'. (k', Some dep') \<in> set ((k, Some dep) # rest) \<and> size u \<le> size dep'"
  proof
    fix u assume "u \<in> set cs"
    then have "size u \<le> size dep" using cs(2) by blast
    then show "\<exists>k' dep'. (k', Some dep') \<in> set ((k, Some dep) # rest) \<and> size u \<le> size dep'"
      by (intro exI[of _ k] exI[of _ dep]) simp
  qed
  show ?case
  proof (cases r)
    case (Inl e)
    then have "calls (snd (calculate_args w dbg cxt ((k, Some dep) # rest) s)) = calls s @ cs" using p cs by simp
    then show ?thesis using A by (intro exI[of _ cs]) simp
  next
    case (Inr v)
    obtain r2 s2 where q: "calculate_args w dbg cxt rest s1 = (r2, s2)" by (cases "calculate_args w dbg cxt rest s1")
    obtain cs' where cs': "calls s2 = calls s1 @ cs'"
      "\<forall>u\<in>set cs'. \<exists>k dep. (k, Some dep) \<in> set rest \<and> size u \<le> size dep"
      using 4(2)[OF p[symmetric] Inr] q by auto
    have B: "\<forall>u\<in>set cs'. \<exists>k' dep'. (k', Some dep') \<in> set ((k, Some dep) # rest) \<and> size u \<le> size dep'"
    proof
      fix u assume "u \<in> set cs'"
      then obtain k' dep' where "(k', Some dep') \<in> set rest" "size u \<le> size dep'" using cs'(2) by blast
      then show "\<exists>k' dep'. (k', Some dep') \<in> set ((k, Some dep) # rest) \<and> size u \<le> size dep'"
        by (intro exI[of _ k'] exI[of _ dep']) simp
    qed
    have "calls (snd (calculate_args w dbg cxt ((k, Some dep) # rest) s)) = calls s2"
      using p Inr q by (cases r2) simp_all
    then have "calls (snd (calculate_args w dbg cxt ((k, Some dep) # rest) s)) = calls s @ (cs @ cs')"
      using cs cs' by simp
    moreover have "\<forall>u\<in>set (cs @ cs'). \<exists>k' dep'. (k', Some dep') \<in> set ((k, Some dep) # rest) \<and> size u \<le> size dep'"
      using A B by (simp add: ball_Un)
    ultimately show ?thesis by (intro exI[of _ "cs @ cs'"]) simp
  qed
qed

lemma first_request_calls:
  assumes "cache s d = None" and "calculate_one w dbg cxt d rst s = (Inr v, s1)"
  shows "\<exists>cs. calls s1 = calls s @ cs @ [d] \<and> d \<notin> set cs"
proof -
  let ?e = "enter d rst s"
  obtain ra s4 where p: "calculate_args w dbg cxt (dependencies d) ?e = (ra, s4)"
    by (cases "calculate_args w dbg cxt (dependencies d) ?e")
  obtain cs where cs: "calls s4 = calls s @ cs"
    "\<forall>u\<in>set cs. \<exists>k dep. (k, Some dep) \<in> set (dependencies d) \<and> size u \<le> size dep"
    using calls_size(2)[of w dbg cxt "dependencies d" ?e] p by auto
  have "d \<notin> set cs"
  proof
    assume "d \<in> set cs"
    then obtain k dep where "(k, Some dep) \<in> set (dependencies d)" "size d \<le> size dep" using cs(2) by blast
    then show False using size_dep[of k dep "dependencies d"] by (cases d) fastforce
  qed
  moreover have "calls s1 = calls s4 @ [d]"
    using assms p by (auto simp: calculate_one_unfold split: if_splits sum.splits)
  ultimately show ?thesis using cs(1) by simp
qed

lemma cache_hit:
  assumes "cache s d = Some v"
  shows "calculate_one w dbg cxt d rst s = (Inr v, s)"
  using assms by (simp add: calculate_one_unfold)

lemma same_runI:
  "a = b \<Longrightarrow> cache s' = cache t' \<Longrightarrow> stack s' = stack s @ xs \<Longrightarrow> stack t' = stack t @ xs \<Longrightarrow>
   same_run (a, s') s (b, t') t"
  by (auto simp: same_run_def)

lemma same_run_rel:
  fixes s :: "'v state" and w :: "('m, 'v) world"
  shows "rst = False \<longrightarrow> (\<forall>t. cache s = cache t \<longrightarrow>
     same_run (calculate_one w dbg cxt d rst s) s (calculate_one w dbg cxt d rst t) t)"
  and "\<forall>t. cache s = cache t \<longrightarrow>
     same_run (calculate_args w dbg cxt deps s) s (calculate_args w dbg cxt deps t) t"
proof (induction w dbg cxt d rst s and w dbg cxt deps s rule: calculate_one_calculate_args.induct)
  case (1 w dbg cxt nm eh kk r3 rc deps rst s)
  define d where "d = Desc nm eh kk r3 rc deps"
  have dd: "dependencies d = deps" by (simp add: d_def)
  show ?case unfolding d_def[symmetric]
  proof (intro impI allI)
    fix t :: "'v state"
    assume rst: "rst = False" and eq: "cache s = cache t"
    show "same_run (calculate_one w dbg cxt d rst s) s (calculate_one w dbg cxt d rst t) t"
    proof (cases "cache s d")
      case (Some v)
      then show ?thesis using eq by (simp add: calculate_one_unfold same_run_def)
    next
      case None
      then have Nt: "cache t d = None" using eq by simp
      show ?thesis
      proof (cases "frag_ok cxt d")
        case False
        then show ?thesis using None Nt eq rst by (simp add: calculate_one_unfold same_run_def)
      next
        case True
        let ?es = "enter d False s" and ?et = "enter d False t"
        obtain ra s4 where ps: "calculate_args w dbg cxt deps ?es = (ra, s4)"
          by (cases "calculate_args w dbg cxt deps ?es")
        obtain rb t4 where pt: "calculate_args w dbg cxt deps ?et = (rb, t4)"
          by (cases "calculate_args w dbg cxt deps ?et")
        have "\<forall>t'. cache ?es = cache t' \<longrightarrow>
                same_run (calculate_args w dbg cxt deps ?es) ?es (calculate_args w dbg cxt deps t') t'"
          using 1[OF refl _ refl refl refl] None True rst by (simp add: d_def enter_def frag_ok_def)
        then have "same_run (ra, s4) ?es (rb, t4) ?et" using eq ps pt by (metis enter_simps(1))
        then obtain xs where r: "ra = rb" "cache s4 = cache t4"
          "stack s4 = stack s @ d # xs" "stack t4 = stack t @ d # xs"
          by (auto simp: same_run_def)
        show ?thesis using None Nt True rst ps pt r
          by (simp add: calculate_one_unfold dd same_run_def split: sum.splits)
      qed
    qed
  qed
next
  case (2 w dbg cxt s)
  show ?case by (simp add: same_run_def)
next
  case (3 w dbg cxt k rest s)
  show ?case
  proof (intro allI impI)
    fix t :: "'v state" assume eq: "cache s = cache t"
    obtain ra s1 where ps: "calculate_args w dbg cxt rest s = (ra, s1)" by (cases "calculate_args w dbg cxt rest s")
    obtain rb t1 where pt: "calculate_args w dbg cxt rest t = (rb, t1)" by (cases "calculate_args w dbg cxt rest t")
    have "same_run (ra, s1) s (rb, t1) t" using 3 eq ps pt by metis
    then show "same_run (calculate_args w dbg cxt ((k, None) # rest) s) s
                 (calculate_args w dbg cxt ((k, None) # rest) t) t"
      using ps pt by (auto simp: same_run_def split: sum.splits)
  qed
next
  case (4 w dbg cxt k dep rest s)
  show ?case
  proof (intro allI impI)
    fix t :: "'v state" assume eq: "cache s = cache t"
    obtain ra s1 where ps: "calculate_one w dbg cxt dep False s = (ra, s1)" by (cases "calculate_one w dbg cxt dep False s")
    obtain rb t1 where pt: "calculate_one w dbg cxt dep False t = (rb, t1)" by (cases "calculate_one w dbg cxt dep False t")
    have "same_run (ra, s1) s (rb, t1) t" using 4(1) eq ps pt by metis
    then obtain xs where r: "ra = rb" "cache s1 = cache t1" "stack s1 = stack s @ xs" "stack t1 = stack t @ xs"
      by (auto simp: same_run_def)
    show "same_run (calculate_args w dbg cxt ((k, Some dep) # rest) s) s
                 (calculate_args w dbg cxt ((k, Some dep) # rest) t) t"
    proof (cases ra)
      case (Inl e)
      then show ?thesis using ps pt r by (simp add: same_run_def)
    next
      case (Inr v)
      obtain ra2 s2 where qs: "calculate_args w dbg cxt rest s1 = (ra2, s2)" by (cases "calculate_args w dbg cxt rest s1")
      obtain rb2 t2 where qt: "calculate_args w dbg cxt rest t1 = (rb2, t2)" by (cases "calculate_args w dbg cxt rest t1")
      have "same_run (ra2, s2) s1 (rb2, t2) t1" using 4(2)[OF ps[symmetric] Inr] r(2) qs qt by metis
      then obtain ys where r2: "ra2 = rb2" "cache s2 = cache t2" "stack s2 = stack s1 @ ys" "stack t2 = stack t1 @ ys"
        by (auto simp: same_run_def)
      show ?thesis using ps pt Inr r qs qt r2 by (simp add: same_run_def split: sum.splits)
    qed
  qed
qed

lemma top_rel:
  fixes s t :: "'v state" and w :: "('m, 'v) world"
  assumes "cache s = cache t"
  shows "fst (calculate_one w dbg cxt d True s) = fst (calculate_one w dbg cxt d True t)"
    and "cache (snd (calculate_one w dbg cxt d True s)) = cache (snd (calculate_one w dbg cxt d True t))"
    and "to_result (fst (calculate_one w dbg cxt d True s)) (stack (snd (calculate_one w dbg cxt d True s))) =
         to_result (fst (calculate_one w dbg cxt d True t)) (stack (snd (calculate_one w dbg cxt d True t)))"
proof -
  have "fst (calculate_one w dbg cxt d True s) = fst (calculate_one w dbg cxt d True t) \<and>
        cache (snd (calculate_one w dbg cxt d True s)) = cache (snd (calculate_one w dbg cxt d True t)) \<and>
        to_result (fst (calculate_one w dbg cxt d True s)) (stack (snd (calculate_one w dbg cxt d True s))) =
         to_result (fst (calculate_one w dbg cxt d True t)) (stack (snd (calculate_one w dbg cxt d True t)))"
  proof (cases "cache s d")
    case (Some v)
    then have "calculate_one w dbg cxt d True s = (Inr v, s)" "calculate_one w dbg cxt d True t = (Inr v, t)"
      using assms by (simp_all add: cache_hit)
    then show ?thesis using assms by simp
  next
    case None
    then have a: "calculate_one w dbg cxt d True s = calculate_one w dbg cxt d False (reset s)"
      "calculate_one w dbg cxt d True t = calculate_one w dbg cxt d False (reset t)"
      using assms by (simp_all add: calculate_one_any[of w dbg cxt d True])
    have "cache (reset s) = cache (reset t)" using assms by simp
    then have "same_run (calculate_one w dbg cxt d False (reset s)) (reset s)
                 (calculate_one w dbg cxt d False (reset t)) (reset t)"
      using same_run_rel(1)[of False "reset s" w dbg cxt d] by blast
    then show ?thesis unfolding a by (auto simp: same_run_def)
  qed
  then show "fst (calculate_one w dbg cxt d True s) = fst (calculate_one w dbg cxt d True t)"
    and "cache (snd (calculate_one w dbg cxt d True s)) = cache (snd (calculate_one w dbg cxt d True t))"
    and "to_result (fst (calculate_one w dbg cxt d True s)) (stack (snd (calculate_one w dbg cxt d True s))) =
         to_result (fst (calculate_one w dbg cxt d True t)) (stack (snd (calculate_one w dbg cxt d True t)))"
    by blast+
qed

lemma loop_rel:
  fixes s t :: "'v state" and w :: "('m, 'v) world"
  assumes "cache s = cache t"
  shows "fst (calculate_loop w self cxt ds s) = fst (calculate_loop w self cxt ds t) \<and>
         cache (snd (calculate_loop w self cxt ds s)) = cache (snd (calculate_loop w self cxt ds t))"
  using assms
proof (induction ds arbitrary: s t)
  case Nil
  then show ?case by simp
next
  case (Cons d ds)
  let ?s1 = "snd (calculate_step w self cxt d s)" and ?t1 = "snd (calculate_step w self cxt d t)"
  have c1: "cache ?s1 = cache ?t1" using top_rel(2)[OF Cons.prems] by simp
  have ih: "fst (calculate_loop w self cxt ds ?s1) = fst (calculate_loop w self cxt ds ?t1)"
    "cache (snd (calculate_loop w self cxt ds ?s1)) = cache (snd (calculate_loop w self cxt ds ?t1))"
    using Cons.IH[OF c1] by blast+
  obtain rs where rs: "fst (calculate_loop w self cxt ds ?s1) = Inr rs"
    using calculate_loop_Inr[of w self cxt ds ?s1] by blast
  then have rt: "fst (calculate_loop w self cxt ds ?t1) = Inr rs" using ih(1) by simp
  show ?case
    using calculate_loop_Cons(2)[OF rs] calculate_loop_Cons(2)[OF rt] ih(2)
      top_rel(3)[OF Cons.prems, of w "c_debug self" cxt d]
    by (simp add: calculate_loop_Cons(1) del: calculate_loop.simps)
qed

lemma cache_size:
  "cache (snd (calculate_one w dbg cxt d rst s)) u \<noteq> None \<longrightarrow> cache s u \<noteq> None \<or> size u \<le> size d"
  "cache (snd (calculate_args w dbg cxt deps s)) u \<noteq> None \<longrightarrow>
     cache s u \<noteq> None \<or> (\<exists>k dep. (k, Some dep) \<in> set deps \<and> size u \<le> size dep)"
proof (induction w dbg cxt d rst s and w dbg cxt deps s rule: calculate_one_calculate_args.induct)
  case (1 w dbg cxt nm eh kk r3 rc deps rst s)
  define d where "d = Desc nm eh kk r3 rc deps"
  have dd: "dependencies d = deps" by (simp add: d_def)
  show ?case unfolding d_def[symmetric]
  proof
    assume a: "cache (snd (calculate_one w dbg cxt d rst s)) u \<noteq> None"
    show "cache s u \<noteq> None \<or> size u \<le> size d"
    proof (cases "cache s d = None \<and> frag_ok cxt d")
      case False
      then have "cache (snd (calculate_one w dbg cxt d rst s)) = cache s"
        by (auto simp: calculate_one_unfold split: option.splits)
      then show ?thesis using a by simp
    next
      case True
      let ?e = "enter d rst s"
      obtain ra s4 where p: "calculate_args w dbg cxt deps ?e = (ra, s4)"
        by (cases "calculate_args w dbg cxt deps ?e")
      have ih: "cache (snd (calculate_args w dbg cxt deps ?e)) u \<noteq> None \<longrightarrow>
          cache ?e u \<noteq> None \<or> (\<exists>k dep. (k, Some dep) \<in> set deps \<and> size u \<le> size dep)"
        using 1[OF refl _ refl refl refl] True by (simp add: d_def enter_def frag_ok_def)
      have c: "cache (snd (calculate_one w dbg cxt d rst s)) = cache s4 \<or>
               (\<exists>r. cache (snd (calculate_one w dbg cxt d rst s)) = (cache s4)(d \<mapsto> r))"
        using True p by (auto simp: calculate_one_unfold dd split: sum.splits)
      show ?thesis
      proof (cases "u = d")
        case True
        then show ?thesis by simp
      next
        case False
        then have "cache s4 u \<noteq> None" using c a by auto
        then have "cache s u \<noteq> None \<or> (\<exists>k dep. (k, Some dep) \<in> set deps \<and> size u \<le> size dep)"
          using ih p by simp
        then show ?thesis
        proof
          assume "cache s u \<noteq> None" then show ?thesis by simp
        next
          assume "\<exists>k dep. (k, Some dep) \<in> set deps \<and> size u \<le> size dep"
          then obtain k dep where "(k, Some dep) \<in> set deps" "size u \<le> size dep" by blast
          then have "size u \<le> size d" using size_dep[of k dep deps nm eh kk r3 rc] by (simp add: d_def)
          then show ?thesis by simp
        qed
      qed
    qed
  qed
next
  case (2 w dbg cxt s)
  show ?case by simp
next
  case (3 w dbg cxt k rest s)
  obtain r s1 where p: "calculate_args w dbg cxt rest s = (r, s1)" by (cases "calculate_args w dbg cxt rest s")
  have e: "cache (snd (calculate_args w dbg cxt ((k, None) # rest) s)) = cache s1"
    using p by (cases r) simp_all
  show ?case
  proof
    assume "cache (snd (calculate_args w dbg cxt ((k, None) # rest) s)) u \<noteq> None"
    then have "cache s u \<noteq> None \<or> (\<exists>k dep. (k, Some dep) \<in> set rest \<and> size u \<le> size dep)"
      using 3 p e by simp
    then show "cache s u \<noteq> None \<or> (\<exists>k' dep. (k', Some dep) \<in> set ((k, None) # rest) \<and> size u \<le> size dep)"
    proof
      assume "cache s u \<noteq> None" then show ?thesis by simp
    next
      assume "\<exists>k dep. (k, Some dep) \<in> set rest \<and> size u \<le> size dep"
      then obtain k' dep' where "(k', Some dep') \<in> set rest" "size u \<le> size dep'" by blast
      then have "\<exists>k'' dep. (k'', Some dep) \<in> set ((k, None) # rest) \<and> size u \<le> size dep"
        by (intro exI[of _ k'] exI[of _ dep']) simp
      then show ?thesis by simp
    qed
  qed
next
  case (4 w dbg cxt k dep rest s)
  obtain r s1 where p: "calculate_one w dbg cxt dep False s = (r, s1)" by (cases "calculate_one w dbg cxt dep False s")
  have here: "\<exists>k' dep'. (k', Some dep') \<in> set ((k, Some dep) # rest) \<and> size u \<le> size dep'"
    if "size u \<le> size dep"
    using that by (intro exI[of _ k] exI[of _ dep]) simp
  have there: "\<exists>k' dep'. (k', Some dep') \<in> set ((k, Some dep) # rest) \<and> size u \<le> size dep'"
    if "\<exists>k dep. (k, Some dep) \<in> set rest \<and> size u \<le> size dep"
  proof -
    from that obtain k' dep' where "(k', Some dep') \<in> set rest" "size u \<le> size dep'" by blast
    then show ?thesis by (intro exI[of _ k'] exI[of _ dep']) simp
  qed
  have one: "cache s1 u \<noteq> None \<longrightarrow> cache s u \<noteq> None \<or> size u \<le> size dep" using 4(1) p by simp
  show ?case
  proof
    assume a: "cache (snd (calculate_args w dbg cxt ((k, Some dep) # rest) s)) u \<noteq> None"
    show "cache s u \<noteq> None \<or> (\<exists>k' dep'. (k', Some dep') \<in> set ((k, Some dep) # rest) \<and> size u \<le> size dep')"
    proof (cases r)
      case (Inl e)
      then have "cache s1 u \<noteq> None" using a p by simp
      then show ?thesis using one here by blast
    next
      case (Inr v)
      obtain r2 s2 where q: "calculate_args w dbg cxt rest s1 = (r2, s2)" by (cases "calculate_args w dbg cxt rest s1")
      have "cache (snd (calculate_args w dbg cxt ((k, Some dep) # rest) s)) = cache s2"
        using p Inr q by (cases r2) simp_all
      then have "cache s2 u \<noteq> None" using a by simp
      then have "cache s1 u \<noteq> None \<or> (\<exists>k dep. (k, Some dep) \<in> set rest \<and> size u \<le> size dep)"
        using 4(2)[OF p[symmetric] Inr] q by simp
      then show ?thesis using one here there by blast
    qed
  qed
qed

lemma calculate_one_miss_stack:
  assumes "cache s d = None"
  shows "\<exists>xs. stack (snd (calculate_one w dbg cxt d rst s)) = (if rst then [] else stack s) @ d # xs"
proof -
  let ?e = "enter d rst s"
  let ?s4 = "snd (calculate_args w dbg cxt (dependencies d) ?e)"
  have "stack (snd (calculate_one w dbg cxt d rst s)) = stack ?e \<or>
        stack (snd (calculate_one w dbg cxt d rst s)) = stack ?s4"
    using assms by (auto simp: calculate_one_unfold split: if_splits prod.splits sum.splits)
  moreover obtain xs where "stack ?s4 = stack ?e @ xs"
    using stack_F(2)[of w dbg cxt "dependencies d" ?e] by blast
  ultimately show ?thesis by auto
qed

lemma failed_request_not_memoized:
  assumes "cache s d = None" and "calculate_one w dbg cxt d rst s = (Inl e, s1)"
  shows "cache s1 d = None"
proof -
  let ?e = "enter d rst s"
  obtain ra s4 where p: "calculate_args w dbg cxt (dependencies d) ?e = (ra, s4)"
    by (cases "calculate_args w dbg cxt (dependencies d) ?e")
  have c: "cache s1 = cache s \<or> cache s1 = cache s4"
    using assms p by (auto simp: calculate_one_unfold split: if_splits sum.splits)
  have "cache s4 d = None"
  proof (rule ccontr)
    assume "cache s4 d \<noteq> None"
    then have "cache ?e d \<noteq> None \<or> (\<exists>k dep. (k, Some dep) \<in> set (dependencies d) \<and> size d \<le> size dep)"
      using cache_size(2)[of w dbg cxt "dependencies d" ?e d] p by simp
    then obtain k dep where "(k, Some dep) \<in> set (dependencies d)" "size d \<le> size dep"
      using assms(1) by auto
    then show False using size_dep[of k dep "dependencies d"] by (cases d) fastforce
  qed
  then show ?thesis using c assms(1) by auto
qed

lemma failed_request_calls:
  assumes "cache s d = None" and "calculate_one w dbg cxt d rst s = (Inl e, s1)"
  shows "count_list (calls s1) d \<le> count_list (calls s) d + 1"
proof -
  let ?e = "enter d rst s"
  obtain ra s4 where p: "calculate_args w dbg cxt (dependencies d) ?e = (ra, s4)"
    by (cases "calculate_args w dbg cxt (dependencies d) ?e")
  obtain cs where cs: "calls s4 = calls s @ cs"
    "\<forall>u\<in>set cs. \<exists>k dep. (k, Some dep) \<in> set (dependencies d) \<and> size u \<le> size dep"
    using calls_size(2)[of w dbg cxt "dependencies d" ?e] p by auto
  have "d \<notin> set cs"
  proof
    assume "d \<in> set cs"
    then obtain k dep where "(k, Some dep) \<in> set (dependencies d)" "size d \<le> size dep" using cs(2) by blast
    then show False using size_dep[of k dep "dependencies d"] by (cases d) fastforce
  qed
  then have 0: "count_list cs d = 0" by (simp add: count_list_0_iff)
  have "calls s1 = calls s \<or> calls s1 = calls s4 \<or> calls s1 = calls s4 @ [d]"
    using assms p by (auto simp: calculate_one_unfold split: if_splits sum.splits)
  then show ?thesis using cs(1) 0 by auto
qed

lemma calculate_args_single:
  "calculate_args w dbg cxt [(k, None)] s = (Inr [(k, None)], s)"
  "calculate_args w dbg cxt [(k, Some dep)] s =
     (case calculate_one w dbg cxt dep False s of
        (Inl e, s1) \<Rightarrow> (Inl e, s1)
      | (Inr v, s1) \<Rightarrow> (Inr [(k, Some v)], s1))"
  by (simp_all split: prod.split sum.split)

lemma calculate_args_append:
  "calculate_args w dbg cxt (xs @ ys) s =
     (case calculate_args w dbg cxt xs s of
        (Inl e, s1) \<Rightarrow> (Inl e, s1)
      | (Inr as, s1) \<Rightarrow>
          (case calculate_args w dbg cxt ys s1 of
             (Inl e, s2) \<Rightarrow> (Inl e, s2)
           | (Inr bs, s2) \<Rightarrow> (Inr (as @ bs), s2)))"
proof (induction xs arbitrary: s)
  case Nil
  show ?case by (simp split: prod.split sum.split)
next
  case (Cons x xs)
  obtain k dep where x: "x = (k, dep)" by (cases x)
  show ?case
  proof (cases dep)
    case None
    show ?thesis unfolding x None using Cons[of s]
      by (simp split: prod.split sum.split)
  next
    case (Some u)
    obtain r s1 where p: "calculate_one w dbg cxt u False s = (r, s1)"
      by (cases "calculate_one w dbg cxt u False s")
    show ?thesis unfolding x Some using Cons[of s1] p
      by (cases r) (simp_all split: prod.split sum.split)
  qed
qed

lemma calculate_args_values:
  "calculate_args w dbg cxt deps s = (Inr args, s') \<Longrightarrow>
   list_all2 (\<lambda>kd ka. fst ka = fst kd \<and>
        (case snd kd of None \<Rightarrow> snd ka = None
         | Some u \<Rightarrow> \<exists>v. snd ka = Some v \<and> cache s' u = Some v)) deps args"
proof (induction deps arbitrary: s args)
  case Nil
  then show ?case by simp
next
  case (Cons x deps)
  obtain k dep where x: "x = (k, dep)" by (cases x)
  show ?case
  proof (cases dep)
    case None
    obtain r s1 where p: "calculate_args w dbg cxt deps s = (r, s1)" by (cases "calculate_args w dbg cxt deps s")
    from Cons.prems obtain as where as: "r = Inr as" "args = (k, None) # as" "s1 = s'"
      unfolding x None using p by (cases r) auto
    then show ?thesis unfolding x None using Cons.IH[of s as] p by simp
  next
    case (Some u)
    obtain r s1 where p: "calculate_one w dbg cxt u False s = (r, s1)"
      by (cases "calculate_one w dbg cxt u False s")
    obtain r2 s2 where q: "calculate_args w dbg cxt deps s1 = (r2, s2)" by (cases "calculate_args w dbg cxt deps s1")
    from Cons.prems obtain v as where as: "r = Inr v" "r2 = Inr as" "args = (k, Some v) # as" "s2 = s'"
      unfolding x Some using p q by (cases r; cases r2) auto
    have "cache s1 u = Some v" using calculate_one_Inr[of w dbg cxt u False s v s1] p as(1) by simp
    moreover have "cache s1 \<subseteq>\<^sub>m cache s'" using cache_mono_F(2)[of s1 w dbg cxt deps] q as(4) by simp
    ultimately have "cache s' u = Some v" by (auto simp: map_le_def dom_def)
    then show ?thesis unfolding x Some using Cons.IH[of s1 as] q as by simp
  qed
qed




lemma calculate_loop_append:
  "snd (calculate_loop w self cxt (xs @ ys) s) =
     snd (calculate_loop w self cxt ys (snd (calculate_loop w self cxt xs s)))"
proof (induction xs arbitrary: s)
  case Nil
  show ?case by simp
next
  case (Cons x xs)
  show ?case using Cons[of "snd (calculate_step w self cxt x s)"]
    by (simp add: calculate_loop_Cons(1) del: calculate_loop.simps)
qed

lemma to_result_Value: "to_result r st = Value v \<Longrightarrow> r = Inr v"
proof (cases r)
  case (Inl e)
  assume "to_result r st = Value v"
  then show ?thesis using Inl by (cases e) simp_all
next
  case (Inr x)
  assume "to_result r st = Value v"
  then show ?thesis using Inr by simp
qed

lemma calculate_loop_take_Suc:
  assumes "i < length ds"
  shows "snd (calculate_loop w self cxt (take (Suc i) ds) s) =
         snd (calculate_step w self cxt (ds ! i) (snd (calculate_loop w self cxt (take i ds) s)))"
proof -
  have "take (Suc i) ds = take i ds @ [ds ! i]" using assms by (rule take_Suc_conv_app_nth)
  then show ?thesis
    by (simp add: calculate_loop_append calculate_loop_Cons(1) del: calculate_loop.simps(2))
qed

lemma to_result_failed:
  "to_result r st = Missing e st' \<Longrightarrow> (\<exists>x. r = Inl x) \<and> st' = st"
  "to_result r st = Error x' st' \<Longrightarrow> (\<exists>x. r = Inl x) \<and> st' = st"
proof -
  show "to_result r st = Missing e st' \<Longrightarrow> (\<exists>x. r = Inl x) \<and> st' = st"
  proof (cases r)
    case (Inl x)
    assume "to_result r st = Missing e st'"
    then show ?thesis using Inl by (cases x) simp_all
  next
    case (Inr v)
    assume "to_result r st = Missing e st'"
    then show ?thesis using Inr by simp
  qed
  show "to_result r st = Error x' st' \<Longrightarrow> (\<exists>x. r = Inl x) \<and> st' = st"
  proof (cases r)
    case (Inl x)
    assume "to_result r st = Error x' st'"
    then show ?thesis using Inl by (cases x) simp_all
  next
    case (Inr v)
    assume "to_result r st = Error x' st'"
    then show ?thesis using Inr by simp
  qed
qed

lemma loop_result_aligned:
  fixes s :: "'v state" and w :: "('m, 'v) world"
  assumes rs: "fst (calculate_loop w self cxt ds s) = Inr rs" and i: "i < length ds"
  shows "rs ! i = Value v \<Longrightarrow> cache (snd (calculate_loop w self cxt ds s)) (ds ! i) = Some v"
    and "rs ! i = Missing e st \<Longrightarrow> st \<noteq> [] \<and> hd st = ds ! i"
    and "rs ! i = Error x st \<Longrightarrow> st \<noteq> [] \<and> hd st = ds ! i"
proof -
  let ?si = "snd (calculate_loop w self cxt (take i ds) s)"
  obtain r s1 where p: "calculate_one w (c_debug self) cxt (ds ! i) True ?si = (r, s1)"
    by (cases "calculate_one w (c_debug self) cxt (ds ! i) True ?si")
  have nth: "rs ! i = to_result r (stack s1)"
    using calculate_loop_nth[OF rs i] p by simp
  have fail: "st \<noteq> [] \<and> hd st = ds ! i" if ex: "\<exists>y. r = Inl y" and steq: "st = stack s1" for st
  proof -
    obtain y where y: "r = Inl y" using ex by blast
    obtain xs where "stack s1 = (if True then [] else stack ?si) @ (ds ! i) # xs"
      using calculate_one_Inl(3)[OF p[unfolded y]] by blast
    then show ?thesis using steq by simp
  qed
  show "rs ! i = Missing e st \<Longrightarrow> st \<noteq> [] \<and> hd st = ds ! i"
    using to_result_failed(1)[of r "stack s1" e st] fail[of st] nth by simp
  show "rs ! i = Error x st \<Longrightarrow> st \<noteq> [] \<and> hd st = ds ! i"
    using to_result_failed(2)[of r "stack s1" x st] fail[of st] nth by simp
  show "cache (snd (calculate_loop w self cxt ds s)) (ds ! i) = Some v" if "rs ! i = Value v"
  proof -
    have "r = Inr v" using that nth to_result_Value[of r "stack s1" v] by simp
    then have c1: "cache s1 (ds ! i) = Some v" using calculate_one_Inr[of w "c_debug self" cxt "ds ! i" True ?si v s1] p by simp
    let ?sj = "snd (calculate_loop w self cxt (take (Suc i) ds) s)"
    have "cache ?sj = cache s1"
      unfolding calculate_loop_take_Suc[OF i] using p by simp
    then have c2: "cache ?sj (ds ! i) = Some v" using c1 by simp
    have "snd (calculate_loop w self cxt ds s) = snd (calculate_loop w self cxt (drop (Suc i) ds) ?sj)"
      using calculate_loop_append[of w self cxt "take (Suc i) ds" "drop (Suc i) ds" s] by simp
    moreover have "cache ?sj \<subseteq>\<^sub>m cache (snd (calculate_loop w self cxt (drop (Suc i) ds) ?sj))"
      by (rule loop_cache_mono)
    ultimately have "cache ?sj \<subseteq>\<^sub>m cache (snd (calculate_loop w self cxt ds s))" by simp
    then show ?thesis using c2 by (auto simp: map_le_def dom_def)
  qed
qed

subsection \<open>How a registration changes the calculator\<close>

lemma register_one_unfold:
  "register_one d check_only ignore_3D self =
    (if ignore_3D \<and> require_3D d then (Inr (), self)
     else case register_deps (dependencies d) (fold_flags d self) of
            (Inl e, self4) \<Rightarrow> (Inl e, self4)
          | (Inr u, self4) \<Rightarrow>
              if \<not> check_only then
                (case c_name_dict self4 (name d) of
                   Some old \<Rightarrow> (Inl (DuplicatedDescriptorName d old), self4)
                 | None \<Rightarrow>
                     (Inr (), self4\<lparr>c_name_dict := ((c_name_dict self4)(name d \<mapsto> d)),
                                   c_descriptors := c_descriptors self4 @ [d]\<rparr>))
              else (Inr (), self4))"
  by (cases d) (simp add: fold_flags_def Let_def split: prod.split sum.split option.split)

lemma closure_unfold: "closure d = d # closure_deps (dependencies d)"
  by (cases d) simp

lemma check_only_frame:
  "fst (register_one d True ignore_3D self) = Inr () \<and>
   c_descriptors (snd (register_one d True ignore_3D self)) = c_descriptors self \<and>
   c_name_dict (snd (register_one d True ignore_3D self)) = c_name_dict self \<and>
   c_debug (snd (register_one d True ignore_3D self)) = c_debug self"
  "fst (register_deps deps self) = Inr () \<and>
   c_descriptors (snd (register_deps deps self)) = c_descriptors self \<and>
   c_name_dict (snd (register_deps deps self)) = c_name_dict self \<and>
   c_debug (snd (register_deps deps self)) = c_debug self"
proof (induction d "True" ignore_3D self and deps self rule: register_one_register_deps.induct)
  case (1 nm eh kk r3 rc deps ignore_3D self)
  define d where "d = Desc nm eh kk r3 rc deps"
  have dd: "dependencies d = deps" "require_3D d = r3" by (simp_all add: d_def)
  show ?case unfolding d_def[symmetric]
  proof (cases "ignore_3D \<and> r3")
    case True
    then show "fst (register_one d True ignore_3D self) = Inr () \<and>
   c_descriptors (snd (register_one d True ignore_3D self)) = c_descriptors self \<and>
   c_name_dict (snd (register_one d True ignore_3D self)) = c_name_dict self \<and>
   c_debug (snd (register_one d True ignore_3D self)) = c_debug self"
      by (simp add: register_one_unfold dd)
  next
    case False
    obtain r s4 where p: "register_deps deps (fold_flags d self) = (r, s4)"
      by (cases "register_deps deps (fold_flags d self)")
    have "fst (register_deps deps (fold_flags d self)) = Inr () \<and>
      c_descriptors (snd (register_deps deps (fold_flags d self))) = c_descriptors (fold_flags d self) \<and>
      c_name_dict (snd (register_deps deps (fold_flags d self))) = c_name_dict (fold_flags d self) \<and>
      c_debug (snd (register_deps deps (fold_flags d self))) = c_debug (fold_flags d self)"
      using 1[OF refl _ refl refl refl] False by (simp add: d_def fold_flags_def)
    then have "r = Inr ()" "c_descriptors s4 = c_descriptors self" "c_name_dict s4 = c_name_dict self"
      "c_debug s4 = c_debug self"
      using p by (simp_all add: fold_flags_def)
    then show "fst (register_one d True ignore_3D self) = Inr () \<and>
   c_descriptors (snd (register_one d True ignore_3D self)) = c_descriptors self \<and>
   c_name_dict (snd (register_one d True ignore_3D self)) = c_name_dict self \<and>
   c_debug (snd (register_one d True ignore_3D self)) = c_debug self"
      using False p by (simp add: register_one_unfold dd)
  qed
next
  case (2 self)
  show ?case by simp
next
  case (3 k rest self)
  then show ?case by simp
next
  case (4 k dep rest self)
  obtain r s1 where p: "register_one dep True False self = (r, s1)" by (cases "register_one dep True False self")
  have a: "r = Inr ()" "c_descriptors s1 = c_descriptors self" "c_name_dict s1 = c_name_dict self"
    "c_debug s1 = c_debug self" using 4(1) p by simp_all
  have "fst (register_deps rest s1) = Inr () \<and>
   c_descriptors (snd (register_deps rest s1)) = c_descriptors s1 \<and>
   c_name_dict (snd (register_deps rest s1)) = c_name_dict s1 \<and>
   c_debug (snd (register_deps rest s1)) = c_debug s1"
    using 4(2)[OF p[symmetric] a(1)] .
  then show ?case using p a by simp
qed

lemma adds_flags_refl: "adds_flags self [] self"
  by (simp add: adds_flags_def)

lemma adds_flags_trans:
  "adds_flags a us b \<Longrightarrow> adds_flags b vs c \<Longrightarrow> adds_flags a (us @ vs) c"
  by (auto simp: adds_flags_def)

lemma adds_flags_fold: "adds_flags self [d] (fold_flags d self)"
  by (auto simp: adds_flags_def fold_flags_def)

lemma adds_flags_upd:
  "adds_flags a us b \<Longrightarrow> adds_flags a us (b\<lparr>c_name_dict := m, c_descriptors := ds\<rparr>)"
  by (simp add: adds_flags_def)

lemma register_one_flags:
  "\<not> (ignore_3D \<and> require_3D d) \<longrightarrow>
     adds_flags self (closure d) (snd (register_one d check_only ignore_3D self))"
  "adds_flags self (closure_deps deps) (snd (register_deps deps self))"
proof (induction d check_only ignore_3D self and deps self rule: register_one_register_deps.induct)
  case (1 nm eh kk r3 rc deps check_only ignore_3D self)
  define d where "d = Desc nm eh kk r3 rc deps"
  have dd: "dependencies d = deps" "require_3D d = r3" by (simp_all add: d_def)
  show ?case unfolding d_def[symmetric]
  proof
    assume ns: "\<not> (ignore_3D \<and> require_3D d)"
    obtain r s4 where p: "register_deps deps (fold_flags d self) = (r, s4)"
      by (cases "register_deps deps (fold_flags d self)")
    have "adds_flags (fold_flags d self) (closure_deps deps) (snd (register_deps deps (fold_flags d self)))"
      using 1[OF refl _ refl refl refl] ns by (simp add: d_def fold_flags_def)
    then have "adds_flags self ([d] @ closure_deps deps) s4"
      using p adds_flags_trans[OF adds_flags_fold] by fastforce
    then have a: "adds_flags self (closure d) s4" by (simp add: closure_unfold dd)
    have "snd (register_one d check_only ignore_3D self) = s4 \<or>
          snd (register_one d check_only ignore_3D self) =
            s4\<lparr>c_name_dict := ((c_name_dict s4)(name d \<mapsto> d)), c_descriptors := c_descriptors s4 @ [d]\<rparr>"
      using ns p by (auto simp: register_one_unfold dd split: sum.splits option.splits)
    then show "adds_flags self (closure d) (snd (register_one d check_only ignore_3D self))"
      using a adds_flags_upd[OF a] by auto
  qed
next
  case (2 self)
  show ?case by (simp add: adds_flags_refl)
next
  case (3 k rest self)
  then show ?case by simp
next
  case (4 k dep rest self)
  obtain r s1 where p: "register_one dep True False self = (r, s1)" by (cases "register_one dep True False self")
  have r: "r = Inr ()" using check_only_frame(1)[of dep False self] p by simp
  have a: "adds_flags self (closure dep) s1" using 4(1) p by simp
  have "adds_flags s1 (closure_deps rest) (snd (register_deps rest s1))" using 4(2)[OF p[symmetric] r] .
  then show ?case using adds_flags_trans[OF a] p r by simp
qed

lemma register_one_top:
  "register_one d False ignore_3D self =
    (if ignore_3D \<and> require_3D d then (Inr (), self)
     else case c_name_dict self (name d) of
            Some old \<Rightarrow> (Inl (DuplicatedDescriptorName d old),
                         snd (register_deps (dependencies d) (fold_flags d self)))
          | None \<Rightarrow> (Inr (), (snd (register_deps (dependencies d) (fold_flags d self)))
                         \<lparr>c_name_dict := ((c_name_dict self)(name d \<mapsto> d)),
                          c_descriptors := c_descriptors self @ [d]\<rparr>))"
proof -
  obtain r s4 where p: "register_deps (dependencies d) (fold_flags d self) = (r, s4)"
    by (cases "register_deps (dependencies d) (fold_flags d self)")
  have "r = Inr ()" "c_descriptors s4 = c_descriptors self" "c_name_dict s4 = c_name_dict self"
    using check_only_frame(2)[of "dependencies d" "fold_flags d self"] p
    by (simp_all add: fold_flags_def)
  then show ?thesis using p by (simp add: register_one_unfold split: option.split)
qed

lemma registered_refl: "registered self [] self"
  by (simp add: registered_def adds_flags_refl)

lemma registered_trans:
  "registered a us b \<Longrightarrow> registered b vs c \<Longrightarrow> registered a (us @ vs) c"
  using adds_flags_trans[of a "concat (map closure us)" b "concat (map closure vs)" c]
  by (simp add: registered_def)

lemma register_one_registered:
  assumes "fst (register_one d False ignore_3D self) = Inr ()"
  shows "registered self (kept ignore_3D [d]) (snd (register_one d False ignore_3D self))"
proof (cases "ignore_3D \<and> require_3D d")
  case True
  then show ?thesis by (simp add: register_one_top kept_def registered_refl)
next
  case False
  have fl: "adds_flags self (closure d) (snd (register_one d False ignore_3D self))"
    using register_one_flags(1)[of ignore_3D d self False] False by blast
  have dbg: "c_debug (snd (register_deps (dependencies d) (fold_flags d self))) = c_debug self"
    using check_only_frame(2)[of "dependencies d" "fold_flags d self"] by (simp add: fold_flags_def)
  have "c_descriptors (snd (register_one d False ignore_3D self)) = c_descriptors self @ [d]"
    "c_debug (snd (register_one d False ignore_3D self)) = c_debug self"
    using assms False dbg by (auto simp: register_one_top split: option.splits)
  then show ?thesis using fl False by (simp add: registered_def kept_def)
qed

lemma kept_append: "kept i (xs @ ys) = kept i xs @ kept i ys"
  by (simp add: kept_def)

lemma register_preset_registered:
  "fst (register_preset ds ignore_3D self) = Inr () \<Longrightarrow>
   registered self (kept ignore_3D ds) (snd (register_preset ds ignore_3D self))"
proof (induction ds arbitrary: self)
  case Nil
  show ?case by (simp add: kept_def registered_refl)
next
  case (Cons d ds)
  obtain r s1 where p: "register_one d False ignore_3D self = (r, s1)"
    by (cases "register_one d False ignore_3D self")
  have r: "r = Inr ()" using Cons.prems p by (cases r) simp_all
  have a: "registered self (kept ignore_3D [d]) s1"
    using register_one_registered[of d ignore_3D self] p r by simp
  have "fst (register_preset ds ignore_3D s1) = Inr ()" using Cons.prems p r by simp
  then have "registered s1 (kept ignore_3D ds) (snd (register_preset ds ignore_3D s1))" by (rule Cons.IH)
  then have "registered self (kept ignore_3D [d] @ kept ignore_3D ds) (snd (register_preset ds ignore_3D s1))"
    by (rule registered_trans[OF a])
  then show ?case using p r kept_append[of ignore_3D "[d]" ds] by simp
qed

lemma register_registered:
  "fst (register x ignore_3D self) = Inr () \<longrightarrow>
   registered self (kept ignore_3D (flatten x)) (snd (register x ignore_3D self))"
  "fst (register_each xs ignore_3D self) = Inr () \<longrightarrow>
   registered self (kept ignore_3D (flatten_each xs)) (snd (register_each xs ignore_3D self))"
proof (induction x ignore_3D self and xs ignore_3D self rule: register_register_each.induct)
  case (1 ps ignore_3D self)
  show ?case using register_preset_registered by simp
next
  case (2 xs ignore_3D self)
  then show ?case by simp
next
  case (3 d ignore_3D self)
  show ?case using register_one_registered by simp
next
  case (4 ignore_3D self)
  show ?case by simp
next
  case (5 xs ignore_3D self)
  then show ?case by simp
next
  case (6 ignore_3D self)
  show ?case by (simp add: kept_def registered_refl)
next
  case (7 x xs ignore_3D self)
  show ?case
  proof
    assume ok: "fst (register_each (x # xs) ignore_3D self) = Inr ()"
    obtain r s1 where p: "register x ignore_3D self = (r, s1)" by (cases "register x ignore_3D self")
    have r: "r = Inr ()" using ok p by (cases r) simp_all
    have a: "registered self (kept ignore_3D (flatten x)) s1" using 7(1) p r by simp
    have "fst (register_each xs ignore_3D s1) = Inr ()" using ok p r by simp
    then have "registered s1 (kept ignore_3D (flatten_each xs)) (snd (register_each xs ignore_3D s1))"
      using 7(2)[OF p[symmetric] r] by blast
    then have "registered self (kept ignore_3D (flatten x) @ kept ignore_3D (flatten_each xs))
                 (snd (register_each xs ignore_3D s1))"
      by (rule registered_trans[OF a])
    then show "registered self (kept ignore_3D (flatten_each (x # xs)))
                 (snd (register_each (x # xs) ignore_3D self))"
      using p r by (simp add: kept_append)
  qed
qed

lemma agg_inv_new: "agg_inv new_calculator"
  by (simp add: agg_inv_def new_calculator_def reachable_def)

lemma agg_inv_registered:
  assumes "agg_inv self" and "registered self ds self'"
  shows "agg_inv self'"
proof -
  have "reachable self' = reachable self @ concat (map closure ds)"
    using assms(2) by (simp add: registered_def reachable_def)
  then show ?thesis using assms by (simp add: agg_inv_def registered_def adds_flags_def image_Un bex_Un)
qed

lemma names_inv_new: "names_inv new_calculator"
  by (simp add: names_inv_def new_calculator_def)

lemma register_one_names:
  "c_descriptors (snd (register_one d False ignore_3D self)) =
     (if fst (register_one d False ignore_3D self) = Inr () \<and> \<not> (ignore_3D \<and> require_3D d)
      then c_descriptors self @ [d] else c_descriptors self)"
  "c_name_dict (snd (register_one d False ignore_3D self)) =
     (if fst (register_one d False ignore_3D self) = Inr () \<and> \<not> (ignore_3D \<and> require_3D d)
      then (c_name_dict self)(name d \<mapsto> d) else c_name_dict self)"
  "fst (register_one d False ignore_3D self) = Inr () \<longleftrightarrow>
     (ignore_3D \<and> require_3D d) \<or> c_name_dict self (name d) = None"
proof -
  have f: "c_descriptors (snd (register_deps (dependencies d) (fold_flags d self))) = c_descriptors self"
    "c_name_dict (snd (register_deps (dependencies d) (fold_flags d self))) = c_name_dict self"
    using check_only_frame(2)[of "dependencies d" "fold_flags d self"] by (simp_all add: fold_flags_def)
  show "c_descriptors (snd (register_one d False ignore_3D self)) =
     (if fst (register_one d False ignore_3D self) = Inr () \<and> \<not> (ignore_3D \<and> require_3D d)
      then c_descriptors self @ [d] else c_descriptors self)"
    using f by (auto simp: register_one_top split: option.split)
  show "c_name_dict (snd (register_one d False ignore_3D self)) =
     (if fst (register_one d False ignore_3D self) = Inr () \<and> \<not> (ignore_3D \<and> require_3D d)
      then (c_name_dict self)(name d \<mapsto> d) else c_name_dict self)"
    using f by (auto simp: register_one_top split: option.split)
  show "fst (register_one d False ignore_3D self) = Inr () \<longleftrightarrow>
     (ignore_3D \<and> require_3D d) \<or> c_name_dict self (name d) = None"
    by (auto simp: register_one_top split: option.split)
qed

lemma names_inv_register_one:
  assumes "names_inv self"
  shows "names_inv (snd (register_one d False ignore_3D self))"
proof (cases "fst (register_one d False ignore_3D self) = Inr () \<and> \<not> (ignore_3D \<and> require_3D d)")
  case False
  then have "c_descriptors (snd (register_one d False ignore_3D self)) = c_descriptors self"
    "c_name_dict (snd (register_one d False ignore_3D self)) = c_name_dict self"
    using register_one_names(1,2)[of d ignore_3D self] by auto
  then show ?thesis using assms by (simp add: names_inv_def)
next
  case True
  then have free: "c_name_dict self (name d) = None" using register_one_names(3)[of d ignore_3D self] by blast
  have ds: "c_descriptors (snd (register_one d False ignore_3D self)) = c_descriptors self @ [d]"
    and nd: "c_name_dict (snd (register_one d False ignore_3D self)) = (c_name_dict self)(name d \<mapsto> d)"
    using True register_one_names(1,2)[of d ignore_3D self] by simp_all
  have inv: "distinct (map name (c_descriptors self))"
    "\<And>n e. c_name_dict self n = Some e \<longleftrightarrow> e \<in> set (c_descriptors self) \<and> name e = n"
    using assms by (simp_all add: names_inv_def)
  have fresh: "name d \<notin> name ` set (c_descriptors self)"
  proof
    assume "name d \<in> name ` set (c_descriptors self)"
    then obtain e where "e \<in> set (c_descriptors self)" "name e = name d" by auto
    then have "c_name_dict self (name d) = Some e" using inv(2) by blast
    then show False using free by simp
  qed
  have 1: "distinct (map name (c_descriptors self @ [d]))" using inv(1) fresh by simp
  have 2: "((c_name_dict self)(name d \<mapsto> d)) n = Some e \<longleftrightarrow> e \<in> set (c_descriptors self @ [d]) \<and> name e = n"
    for n e
  proof (cases "n = name d")
    case True
    have ne: "name e \<noteq> name d" if "e \<in> set (c_descriptors self)"
    proof
      assume "name e = name d"
      then have "name d \<in> name ` set (c_descriptors self)" using that by (metis imageI)
      then show False using fresh by simp
    qed
    show ?thesis
    proof
      assume "((c_name_dict self)(name d \<mapsto> d)) n = Some e"
      then have "e = d" using True by simp
      then show "e \<in> set (c_descriptors self @ [d]) \<and> name e = n" using True by simp
    next
      assume a: "e \<in> set (c_descriptors self @ [d]) \<and> name e = n"
      then have "e = d" using ne True by auto
      then show "((c_name_dict self)(name d \<mapsto> d)) n = Some e" using True by simp
    qed
  next
    case False
    then show ?thesis using inv(2)[of n e] by auto
  qed
  show ?thesis unfolding names_inv_def ds nd using 1 2 by blast
qed

lemma names_inv_register_preset:
  "names_inv self \<Longrightarrow> names_inv (snd (register_preset ds ignore_3D self))"
proof (induction ds arbitrary: self)
  case Nil
  then show ?case by simp
next
  case (Cons d ds)
  obtain r s1 where p: "register_one d False ignore_3D self = (r, s1)"
    by (cases "register_one d False ignore_3D self")
  have a: "names_inv s1" using names_inv_register_one[OF Cons.prems, of d ignore_3D] p by simp
  show ?case
  proof (cases r)
    case (Inl e)
    then show ?thesis using p a by simp
  next
    case (Inr u)
    then show ?thesis using p Cons.IH[OF a] by simp
  qed
qed

lemma names_inv_register:
  "names_inv self \<longrightarrow> names_inv (snd (register x ignore_3D self))"
  "names_inv self \<longrightarrow> names_inv (snd (register_each xs ignore_3D self))"
proof (induction x ignore_3D self and xs ignore_3D self rule: register_register_each.induct)
  case (1 ps ignore_3D self)
  show ?case using names_inv_register_preset by simp
next
  case (2 xs ignore_3D self)
  then show ?case by simp
next
  case (3 d ignore_3D self)
  show ?case using names_inv_register_one by simp
next
  case (4 ignore_3D self)
  show ?case by simp
next
  case (5 xs ignore_3D self)
  then show ?case by simp
next
  case (6 ignore_3D self)
  show ?case by simp
next
  case (7 x xs ignore_3D self)
  obtain r s1 where p: "register x ignore_3D self = (r, s1)" by (cases "register x ignore_3D self")
  show ?case
  proof
    assume "names_inv self"
    then have a: "names_inv s1" using 7(1) p by simp
    show "names_inv (snd (register_each (x # xs) ignore_3D self))"
    proof (cases r)
      case (Inl e)
      then show ?thesis using p a by simp
    next
      case (Inr u)
      then show ?thesis using p a 7(2)[OF p[symmetric] Inr] by simp
    qed
  qed
qed

lemma registered_unfold:
  "registered self ds self' \<longleftrightarrow>
     c_descriptors self' = c_descriptors self @ ds \<and>
     c_require_3D self' = (c_require_3D self \<or> (\<exists>u\<in>set (concat (map closure ds)). require_3D u)) \<and>
     c_explicit_hydrogens self' =
       c_explicit_hydrogens self \<union> explicit_hydrogens ` set (concat (map closure ds)) \<and>
     c_kekulizes self' = c_kekulizes self \<union> kekulize ` set (concat (map closure ds)) \<and>
     c_debug self' = c_debug self"
  by (auto simp: registered_def adds_flags_def)

lemma closure_deps_iff:
  "u \<in> set (closure_deps deps) \<longleftrightarrow> (\<exists>k dep. (k, Some dep) \<in> set deps \<and> u \<in> set (closure dep))"
proof (induction deps)
  case Nil
  show ?case by simp
next
  case (Cons x deps)
  obtain k dep where x: "x = (k, dep)" by (cases x)
  show ?case
  proof (cases dep)
    case None
    then show ?thesis using Cons x by auto
  next
    case (Some v)
    then show ?thesis using Cons x by auto
  qed
qed

lemma closure_iff:
  "u \<in> set (closure d) \<longleftrightarrow>
     u = d \<or> (\<exists>k dep. (k, Some dep) \<in> set (dependencies d) \<and> u \<in> set (closure dep))"
  by (simp add: closure_unfold[of d] closure_deps_iff)

lemma reachable_registered:
  "registered self ds self' \<Longrightarrow> reachable self' = reachable self @ concat (map closure ds)"
  by (simp add: registered_def reachable_def)

lemma register_one_skip:
  "require_3D d \<Longrightarrow> register_one d check_only True self = (Inr (), self)"
  by (cases d) simp

lemma register_seq_registered:
  "fst (register_seq xs self) = Inr () \<Longrightarrow>
   registered self (kept_seq xs) (snd (register_seq xs self))"
proof (induction xs arbitrary: self)
  case Nil
  show ?case by (simp add: kept_seq_def registered_refl)
next
  case (Cons p xs)
  obtain x ig where p: "p = (x, ig)" by (cases p)
  obtain r s1 where q: "register x ig self = (r, s1)" by (cases "register x ig self")
  have r: "r = Inr ()" using Cons.prems p q by (cases r) simp_all
  have 1: "registered self (kept ig (flatten x)) s1"
    using register_registered(1)[of x ig self] q r by simp
  have e: "register_seq (p # xs) self = register_seq xs s1" using p q r by simp
  have 2: "registered s1 (kept_seq xs) (snd (register_seq xs s1))"
    using Cons.IH[of s1] Cons.prems e by simp
  have "kept_seq (p # xs) = kept ig (flatten x) @ kept_seq xs" using p by (simp add: kept_seq_def)
  then show ?case using registered_trans[OF 1 2] e by simp
qed

lemma register_seq_agg_inv:
  "fst (register_seq xs new_calculator) = Inr () \<Longrightarrow> agg_inv (snd (register_seq xs new_calculator))"
  using agg_inv_registered[OF agg_inv_new register_seq_registered] .

lemma register_seq_names_inv:
  "names_inv self \<Longrightarrow> names_inv (snd (register_seq xs self))"
proof (induction xs arbitrary: self)
  case Nil
  then show ?case by simp
next
  case (Cons p xs)
  obtain x ig where p: "p = (x, ig)" by (cases p)
  obtain r s1 where q: "register x ig self = (r, s1)" by (cases "register x ig self")
  have n: "names_inv s1" using names_inv_register(1)[of self x ig] Cons.prems q by simp
  show ?case
  proof (cases r)
    case (Inl e)
    then show ?thesis using p q n by simp
  next
    case (Inr u)
    then show ?thesis using p q Cons.IH[OF n] by simp
  qed
qed

subsection \<open>Unfolding the concrete registry\<close>

lemmas reg_defs = init_def new_calculator_def fold_flags_def Let_def

lemmas ex_defs = dA_def dM_def dE_def dH_def dT_def dB_def dF_def dU_def dC_def dD_def
  ex_world_def ex_cxt_def ex_state_def ex_calc_def new_calculator_def

lemmas eval_defs = calculate_step_def calculate_iter_def reset_def add_stack_def get_stack_def
  fail_def check_rtype_def Let_def

subsection \<open>One result for each registered unit\<close>

text \<open>
  Claim C1. Consuming \<^verbatim>\<open>_calculate\<close> for any registry and any context never lets an
  exception leave the loop and yields exactly one result for each registered unit, in
  order. The result of the unit at index \<open>i\<close> is decided by the outcome of its
  \<^verbatim>\<open>_calculate_one\<close> call in the state the earlier turns left: a value that is returned is
  yielded as it is, a missing-value exception becomes \<^verbatim>\<open>Missing\<close> with the wrapped error
  and the diagnostic stack, any other exception becomes \<^verbatim>\<open>Error\<close> with the exception and
  the diagnostic stack.
\<close>

theorem iteration_yields_one_result_per_unit:
  "\<exists>rs. fst (calculate_iter w self cxt s) = Inr rs \<and> length rs = length (c_descriptors self) \<and>
     (\<forall>i<length rs.
        let si = snd (calculate_loop w self cxt (take i (c_descriptors self)) (s\<lparr>cache := Map.empty\<rparr>));
            r = fst (calculate_one w (c_debug self) cxt (c_descriptors self ! i) True si);
            st = stack (snd (calculate_one w (c_debug self) cxt (c_descriptors self ! i) True si))
        in (\<forall>v. r = Inr v \<longrightarrow> rs ! i = Value v) \<and>
           (\<forall>e. r = Inl (MissingValueException e) \<longrightarrow> rs ! i = Missing e st) \<and>
           (\<forall>x. r = Inl x \<longrightarrow> (\<forall>e. x \<noteq> MissingValueException e) \<longrightarrow> rs ! i = Error x st))"
proof -
  let ?ds = "c_descriptors self" and ?s0 = "s\<lparr>cache := Map.empty\<rparr>"
  obtain rs where rs: "fst (calculate_loop w self cxt ?ds ?s0) = Inr rs" "length rs = length ?ds"
    using calculate_loop_Inr[of w self cxt ?ds ?s0] by blast
  have err: "to_result (Inl x) st = Error x st" if "\<forall>e. x \<noteq> MissingValueException e" for x :: exn and st
    using that by (cases x) simp_all
  have "\<forall>i<length rs.
        let si = snd (calculate_loop w self cxt (take i ?ds) ?s0);
            r = fst (calculate_one w (c_debug self) cxt (?ds ! i) True si);
            st = stack (snd (calculate_one w (c_debug self) cxt (?ds ! i) True si))
        in (\<forall>v. r = Inr v \<longrightarrow> rs ! i = Value v) \<and>
           (\<forall>e. r = Inl (MissingValueException e) \<longrightarrow> rs ! i = Missing e st) \<and>
           (\<forall>x. r = Inl x \<longrightarrow> (\<forall>e. x \<noteq> MissingValueException e) \<longrightarrow> rs ! i = Error x st)"
  proof (intro allI impI)
    fix i assume "i < length rs"
    then have i: "i < length ?ds" using rs(2) by simp
    show "let si = snd (calculate_loop w self cxt (take i ?ds) ?s0);
            r = fst (calculate_one w (c_debug self) cxt (?ds ! i) True si);
            st = stack (snd (calculate_one w (c_debug self) cxt (?ds ! i) True si))
        in (\<forall>v. r = Inr v \<longrightarrow> rs ! i = Value v) \<and>
           (\<forall>e. r = Inl (MissingValueException e) \<longrightarrow> rs ! i = Missing e st) \<and>
           (\<forall>x. r = Inl x \<longrightarrow> (\<forall>e. x \<noteq> MissingValueException e) \<longrightarrow> rs ! i = Error x st)"
      unfolding Let_def calculate_loop_nth[OF rs(1) i]
      by (auto simp: err)
  qed
  then show ?thesis using rs by (auto simp: calculate_iter_def)
qed

theorem iteration_yields_one_result_per_unit_witness:
  "(1::nat) < length [dA, dM, dE] \<and>
   (\<exists>rs. fst (calculate_iter ex_world (ex_calc [dA, dM, dE]) (ex_cxt 1) ex_state) = Inr rs \<and>
      length rs = 3 \<and> rs ! 1 = Missing (OtherError ''undefined'') [dM])"
proof -
  obtain rs where rs: "fst (calculate_iter ex_world (ex_calc [dA, dM, dE]) (ex_cxt 1) ex_state) = Inr rs"
    "length rs = length (c_descriptors (ex_calc [dA, dM, dE]))"
    and nth: "\<forall>i<length rs.
        let si = snd (calculate_loop ex_world (ex_calc [dA, dM, dE]) (ex_cxt 1) (take i (c_descriptors (ex_calc [dA, dM, dE]))) (ex_state\<lparr>cache := Map.empty\<rparr>));
            r = fst (calculate_one ex_world (c_debug (ex_calc [dA, dM, dE])) (ex_cxt 1) (c_descriptors (ex_calc [dA, dM, dE]) ! i) True si);
            st = stack (snd (calculate_one ex_world (c_debug (ex_calc [dA, dM, dE])) (ex_cxt 1) (c_descriptors (ex_calc [dA, dM, dE]) ! i) True si))
        in (\<forall>v. r = Inr v \<longrightarrow> rs ! i = Value v) \<and>
           (\<forall>e. r = Inl (MissingValueException e) \<longrightarrow> rs ! i = Missing e st) \<and>
           (\<forall>x. r = Inl x \<longrightarrow> (\<forall>e. x \<noteq> MissingValueException e) \<longrightarrow> rs ! i = Error x st)"
    using iteration_yields_one_result_per_unit[of ex_world "ex_calc [dA, dM, dE]" "ex_cxt 1" ex_state]
    by blast
  have len: "length rs = 3" using rs(2) by (simp add: ex_calc_def)
  have "rs ! 1 = Missing (OtherError ''undefined'') [dM]"
    using nth[rule_format, of 1] len
    by (simp add: ex_defs eval_defs)
  then show ?thesis using rs(1) len by simp
qed


subsection \<open>Units that require a single connected fragment\<close>

text \<open>
  Claim C5. When the structure's fragment count is not 1, consuming \<^verbatim>\<open>_calculate\<close> yields,
  for every registered unit that requires a single connected fragment, the tagged failure
  \<^verbatim>\<open>Missing(MultipleFragments(), stack)\<close> whose stack holds that unit alone, and no unit
  that requires a single connected fragment has its \<^verbatim>\<open>calculate\<close> invoked during the run,
  neither as a top-level unit nor as a dependency.
\<close>

theorem single_fragment_units_fail_without_calculate:
  assumes "n_frags cxt \<noteq> 1"
  shows "\<exists>rs cs. fst (calculate_iter w self cxt s) = Inr rs \<and>
           length rs = length (c_descriptors self) \<and>
           (\<forall>i<length rs. require_connected (c_descriptors self ! i) \<longrightarrow>
              rs ! i = Missing MultipleFragments [c_descriptors self ! i]) \<and>
           calls (snd (calculate_iter w self cxt s)) = calls s @ cs \<and>
           (\<forall>u\<in>set cs. \<not> require_connected u)"
proof -
  let ?ds = "c_descriptors self" and ?s0 = "s\<lparr>cache := Map.empty\<rparr>"
  obtain rs where rs: "fst (calculate_loop w self cxt ?ds ?s0) = Inr rs" "length rs = length ?ds"
    using calculate_loop_Inr[of w self cxt ?ds ?s0] by blast
  obtain cs where cs: "calls (snd (calculate_loop w self cxt ?ds ?s0)) = calls ?s0 @ cs"
    "\<forall>u\<in>set cs. frag_ok cxt u"
    using loop_calls[of w self cxt ?ds ?s0] by blast
  have cs2: "\<forall>u\<in>set cs. \<not> require_connected u" using cs(2) assms by (simp add: frag_ok_def)
  have nth: "rs ! i = Missing MultipleFragments [?ds ! i]"
    if i: "i < length rs" and rc: "require_connected (?ds ! i)" for i
  proof -
    let ?si = "snd (calculate_loop w self cxt (take i ?ds) ?s0)"
    have nok: "\<not> frag_ok cxt (?ds ! i)" using rc assms by (simp add: frag_ok_def)
    have miss: "cache ?si (?ds ! i) = None"
    proof (rule ccontr)
      assume "cache ?si (?ds ! i) \<noteq> None"
      then have "cache ?s0 (?ds ! i) \<noteq> None \<or> frag_ok cxt (?ds ! i)" by (rule loop_newcache)
      then show False using nok by simp
    qed
    have "calculate_one w (c_debug self) cxt (?ds ! i) True ?si =
            (Inl (MissingValueException MultipleFragments), enter (?ds ! i) True ?si)"
      using calculate_one_not_frag_ok[OF miss nok] .
    moreover have "i < length ?ds" using i rs(2) by simp
    ultimately show ?thesis using calculate_loop_nth[OF rs(1), of i] by simp
  qed
  show ?thesis using rs cs(1) cs2 nth by (auto simp: calculate_iter_def)
qed

theorem single_fragment_units_fail_without_calculate_witness:
  "n_frags (ex_cxt 2) \<noteq> 1 \<and> (1::nat) < length [dA, dC] \<and> require_connected dC \<and>
   (\<exists>rs. fst (calculate_iter ex_world (ex_calc [dA, dC]) (ex_cxt 2) ex_state) = Inr rs \<and>
      rs ! 1 = Missing MultipleFragments [dC]) \<and>
   calls (snd (calculate_iter ex_world (ex_calc [dA, dC]) (ex_cxt 2) ex_state)) = [dA]"
proof -
  have h: "n_frags (ex_cxt 2) \<noteq> 1" by (simp add: ex_cxt_def)
  obtain rs cs where rs: "fst (calculate_iter ex_world (ex_calc [dA, dC]) (ex_cxt 2) ex_state) = Inr rs"
    "length rs = length (c_descriptors (ex_calc [dA, dC]))"
    "\<forall>i<length rs. require_connected (c_descriptors (ex_calc [dA, dC]) ! i) \<longrightarrow>
              rs ! i = Missing MultipleFragments [c_descriptors (ex_calc [dA, dC]) ! i]"
    using single_fragment_units_fail_without_calculate[OF h, of ex_world "ex_calc [dA, dC]" ex_state]
    by blast
  have len: "length rs = 2" using rs(2) by (simp add: ex_calc_def)
  have "rs ! 1 = Missing MultipleFragments [dC]"
    using rs(3)[rule_format, of 1] len by (simp add: ex_calc_def dC_def)
  moreover have "calls (snd (calculate_iter ex_world (ex_calc [dA, dC]) (ex_cxt 2) ex_state)) = [dA]"
    by (simp add: ex_defs eval_defs)
  ultimately show ?thesis using rs(1) h by (simp add: dC_def)
qed


subsection \<open>The order of the steps of a request\<close>

text \<open>
  Claim C6 says that the dependencies of a unit are resolved before its single-fragment
  precondition is checked. The code checks the precondition first (line 146) and resolves
  the dependencies afterwards (lines 149-153). For the unit \<open>dC\<close>, which requires a single
  fragment and depends on \<open>dA\<close>, and a structure with two fragments, the request fails with
  the multiple-fragments condition while \<open>dA\<close> has not been resolved: it is not on the
  diagnostic stack, it is not memoized and its \<^verbatim>\<open>calculate\<close> has not been invoked, although
  resolving \<open>dA\<close> in that context succeeds.
\<close>

theorem fragment_check_precedes_dependencies_counterexample:
  "dependencies dC = [(''a'', Some dA)] \<and>
   fst (calculate_one ex_world False (ex_cxt 2) dC True ex_state) =
     Inl (MissingValueException MultipleFragments) \<and>
   stack (snd (calculate_one ex_world False (ex_cxt 2) dC True ex_state)) = [dC] \<and>
   cache (snd (calculate_one ex_world False (ex_cxt 2) dC True ex_state)) dA = None \<and>
   calls (snd (calculate_one ex_world False (ex_cxt 2) dC True ex_state)) = [] \<and>
   calculate_one ex_world False (ex_cxt 2) dA False ex_state =
     (Inr 0, ex_state\<lparr>cache := [dA \<mapsto> 0], stack := [dA], has_context := {dA}, calls := [dA]\<rparr>)"
  by (simp add: ex_defs eval_defs)

text \<open>
  Claim C6 as amended. On a cache miss the unit is pushed onto the diagnostic stack and its
  single-fragment precondition is checked at once: when it fails, the request raises the
  multiple-fragments condition and nothing else has changed. When it holds, the
  dependencies are resolved next: an exception of a dependency ends the request with that
  exception and the unit's \<^verbatim>\<open>calculate\<close> is not invoked; otherwise \<^verbatim>\<open>calculate\<close> is invoked
  after them with the resolved values and decides the outcome. The dependencies are
  resolved one after the other in the order of the declaration, each from the state the
  one before left, and the first exception ends the resolution: a dependency mapped to
  \<^verbatim>\<open>None\<close> gives \<^verbatim>\<open>None\<close> under its name without any recursion or change of state, a
  dependency mapped to a unit is resolved by a recursive request without a reset of the
  stack and gives the value under its name, and resolving a list that is two lists put
  together is resolving the first and then the second. When all dependencies resolve, the
  arguments carry the names of the declaration in order, \<^verbatim>\<open>None\<close> for each null-mapped
  name, and for each unit a value, which is the one memoized for that unit.
\<close>

theorem fragment_check_precedes_dependencies:
  assumes "cache s d = None"
  shows "(require_connected d \<and> n_frags cxt \<noteq> 1 \<longrightarrow>
            calculate_one w dbg cxt d rst s =
              (Inl (MissingValueException MultipleFragments), enter d rst s)) \<and>
         (\<not> (require_connected d \<and> n_frags cxt \<noteq> 1) \<longrightarrow>
            (\<forall>e s4. calculate_args w dbg cxt (dependencies d) (enter d rst s) = (Inl e, s4) \<longrightarrow>
               calculate_one w dbg cxt d rst s = (Inl e, s4)) \<and>
            (\<forall>args s4. calculate_args w dbg cxt (dependencies d) (enter d rst s) = (Inr args, s4) \<longrightarrow>
               calls (snd (calculate_one w dbg cxt d rst s)) = calls s4 @ [d] \<and>
               (\<forall>e. calculate w d cxt args = Inl e \<longrightarrow> fst (calculate_one w dbg cxt d rst s) = Inl e) \<and>
               (\<forall>r. calculate w d cxt args = Inr r \<longrightarrow> \<not> dbg \<longrightarrow>
                  fst (calculate_one w dbg cxt d rst s) = Inr r))) \<and>
         calculate_args w dbg cxt (map (\<lambda>k. (k, None)) ks) s = (Inr (map (\<lambda>k. (k, None)) ks), s) \<and>
         calculate_args w dbg cxt [] t = (Inr [], t) \<and>
         calculate_args w dbg cxt [(k, None)] t = (Inr [(k, None)], t) \<and>
         calculate_args w dbg cxt [(k, Some dep)] t =
           (case calculate_one w dbg cxt dep False t of
              (Inl e, t1) \<Rightarrow> (Inl e, t1)
            | (Inr v, t1) \<Rightarrow> (Inr [(k, Some v)], t1)) \<and>
         calculate_args w dbg cxt (xs @ ys) t =
           (case calculate_args w dbg cxt xs t of
              (Inl e, t1) \<Rightarrow> (Inl e, t1)
            | (Inr as, t1) \<Rightarrow>
                (case calculate_args w dbg cxt ys t1 of
                   (Inl e, t2) \<Rightarrow> (Inl e, t2)
                 | (Inr bs, t2) \<Rightarrow> (Inr (as @ bs), t2))) \<and>
         (\<forall>args t'. calculate_args w dbg cxt deps t = (Inr args, t') \<longrightarrow>
            list_all2 (\<lambda>kd ka. fst ka = fst kd \<and>
                (case snd kd of None \<Rightarrow> snd ka = None
                 | Some u \<Rightarrow> \<exists>v. snd ka = Some v \<and> cache t' u = Some v)) deps args)"
proof (intro conjI)
  show "(require_connected d \<and> n_frags cxt \<noteq> 1 \<longrightarrow>
            calculate_one w dbg cxt d rst s =
              (Inl (MissingValueException MultipleFragments), enter d rst s))"
    using assms by (simp add: calculate_one_unfold frag_ok_def fail_def)
  show "(\<not> (require_connected d \<and> n_frags cxt \<noteq> 1) \<longrightarrow>
            (\<forall>e s4. calculate_args w dbg cxt (dependencies d) (enter d rst s) = (Inl e, s4) \<longrightarrow>
               calculate_one w dbg cxt d rst s = (Inl e, s4)) \<and>
            (\<forall>args s4. calculate_args w dbg cxt (dependencies d) (enter d rst s) = (Inr args, s4) \<longrightarrow>
               calls (snd (calculate_one w dbg cxt d rst s)) = calls s4 @ [d] \<and>
               (\<forall>e. calculate w d cxt args = Inl e \<longrightarrow> fst (calculate_one w dbg cxt d rst s) = Inl e) \<and>
               (\<forall>r. calculate w d cxt args = Inr r \<longrightarrow> \<not> dbg \<longrightarrow>
                  fst (calculate_one w dbg cxt d rst s) = Inr r)))"
    using assms by (auto simp: calculate_one_unfold frag_ok_def split: sum.splits)
  show "calculate_args w dbg cxt (map (\<lambda>k. (k, None)) ks) s = (Inr (map (\<lambda>k. (k, None)) ks), s)"
    by (rule calculate_args_None)
  show "calculate_args w dbg cxt [] t = (Inr [], t)" by simp
  show "calculate_args w dbg cxt [(k, None)] t = (Inr [(k, None)], t)"
    by (rule calculate_args_single(1))
  show "calculate_args w dbg cxt [(k, Some dep)] t =
           (case calculate_one w dbg cxt dep False t of
              (Inl e, t1) \<Rightarrow> (Inl e, t1)
            | (Inr v, t1) \<Rightarrow> (Inr [(k, Some v)], t1))"
    by (rule calculate_args_single(2))
  show "calculate_args w dbg cxt (xs @ ys) t =
           (case calculate_args w dbg cxt xs t of
              (Inl e, t1) \<Rightarrow> (Inl e, t1)
            | (Inr as, t1) \<Rightarrow>
                (case calculate_args w dbg cxt ys t1 of
                   (Inl e, t2) \<Rightarrow> (Inl e, t2)
                 | (Inr bs, t2) \<Rightarrow> (Inr (as @ bs), t2)))"
    by (rule calculate_args_append)
  show "\<forall>args t'. calculate_args w dbg cxt deps t = (Inr args, t') \<longrightarrow>
            list_all2 (\<lambda>kd ka. fst ka = fst kd \<and>
                (case snd kd of None \<Rightarrow> snd ka = None
                 | Some u \<Rightarrow> \<exists>v. snd ka = Some v \<and> cache t' u = Some v)) deps args"
    using calculate_args_values by blast
qed

theorem fragment_check_precedes_dependencies_witness:
  "cache ex_state dC = None \<and> require_connected dC \<and> n_frags (ex_cxt 2) \<noteq> 1 \<and>
   calculate_one ex_world False (ex_cxt 2) dC True ex_state =
     (Inl (MissingValueException MultipleFragments), enter dC True ex_state) \<and>
   cache ex_state dD = None \<and> \<not> (require_connected dD \<and> n_frags (ex_cxt 1) \<noteq> 1) \<and>
   calculate_args ex_world False (ex_cxt 1) (dependencies dD) (enter dD True ex_state) =
     (Inr [(''a'', Some 0), (''n'', None), (''b'', Some 1)],
      ex_state\<lparr>cache := [dA \<mapsto> 0, dB \<mapsto> 1], stack := [dD, dA, dB], has_context := {dA, dB, dD},
                calls := [dA, dB]\<rparr>) \<and>
   calls (snd (calculate_one ex_world False (ex_cxt 1) dD True ex_state)) = [dA, dB, dD] \<and>
   fst (calculate_one ex_world False (ex_cxt 1) dD True ex_state) = Inr 3"
proof -
  have c: "cache ex_state dC = None" "cache ex_state dD = None" by (simp_all add: ex_state_def)
  have rc: "require_connected dC" "n_frags (ex_cxt 2) \<noteq> 1"
    "\<not> (require_connected dD \<and> n_frags (ex_cxt 1) \<noteq> 1)"
    by (simp_all add: dC_def dD_def ex_cxt_def)
  have 1: "calculate_one ex_world False (ex_cxt 2) dC True ex_state =
     (Inl (MissingValueException MultipleFragments), enter dC True ex_state)"
    using fragment_check_precedes_dependencies[OF c(1), of "ex_cxt 2" ex_world False True] rc
    by simp
  have args: "calculate_args ex_world False (ex_cxt 1) (dependencies dD) (enter dD True ex_state) =
     (Inr [(''a'', Some 0), (''n'', None), (''b'', Some 1)],
      ex_state\<lparr>cache := [dA \<mapsto> 0, dB \<mapsto> 1], stack := [dD, dA, dB], has_context := {dA, dB, dD},
                calls := [dA, dB]\<rparr>)"
    by (simp add: ex_defs eval_defs enter_def insert_commute)
  have cl: "calculate ex_world dD (ex_cxt 1) [(''a'', Some 0), (''n'', None), (''b'', Some 1)] = Inr 3"
    by (simp add: ex_defs)
  have 2: "calls (snd (calculate_one ex_world False (ex_cxt 1) dD True ex_state)) = [dA, dB, dD]"
    "fst (calculate_one ex_world False (ex_cxt 1) dD True ex_state) = Inr 3"
    using fragment_check_precedes_dependencies[OF c(2), of "ex_cxt 1" ex_world False True] rc args cl
    by simp_all
  show ?thesis using c rc 1 args 2 by simp
qed

subsection \<open>Memoization within one context\<close>

text \<open>
  Claim C2 says that a second request for a unit within one context returns the memoized
  value and that the unit's \<^verbatim>\<open>calculate\<close> is invoked exactly once. Only a value that was
  returned is stored (line 160); a request that raised leaves no entry. With the registry
  \<open>[dM, dF]\<close>, where \<open>dF\<close> depends on \<open>dM\<close> and \<open>dM\<close> raises a missing-value condition,
  one run invokes the \<^verbatim>\<open>calculate\<close> of \<open>dM\<close> twice and memoizes nothing for it.
\<close>

theorem memoized_value_is_reused_counterexample:
  "calls (snd (calculate_iter ex_world (ex_calc [dM, dF]) (ex_cxt 1) ex_state)) = [dM, dM] \<and>
   count_list (calls (snd (calculate_iter ex_world (ex_calc [dM, dF]) (ex_cxt 1) ex_state))) dM = 2 \<and>
   cache (snd (calculate_iter ex_world (ex_calc [dM, dF]) (ex_cxt 1) ex_state)) dM = None"
  by (simp add: ex_defs eval_defs)

text \<open>
  Claim C2 as amended, for the first request for a unit in a context (a cache miss). When
  the request returns a value, it invoked the unit's \<^verbatim>\<open>calculate\<close> exactly once, and every
  later request for the unit in the same context, top-level or as a dependency, returns the
  memoized value and leaves the state as it is, so \<^verbatim>\<open>calculate\<close> is not invoked again. A
  later state of the context is one whose cache extends the cache the first request left;
  every further request and every further turn of the loop extends the cache. When the
  request raises, nothing is memoized for the unit, its \<^verbatim>\<open>calculate\<close> was invoked at most
  once, and a later request for the unit is not answered from the cache: the unit is
  entered and pushed onto the diagnostic stack again.
\<close>

theorem memoized_value_is_reused:
  assumes "cache s d = None"
  shows "(\<forall>v s1. calculate_one w (c_debug self) cxt d rst s = (Inr v, s1) \<longrightarrow>
            count_list (calls s1) d = count_list (calls s) d + 1 \<and>
            (\<forall>s2 rst'. cache s1 \<subseteq>\<^sub>m cache s2 \<longrightarrow>
               calculate_one w (c_debug self) cxt d rst' s2 = (Inr v, s2)) \<and>
            (\<forall>e rst'. cache s1 \<subseteq>\<^sub>m cache (snd (calculate_one w (c_debug self) cxt e rst' s1))) \<and>
            (\<forall>ds. cache s1 \<subseteq>\<^sub>m cache (snd (calculate_loop w self cxt ds s1)))) \<and>
         (\<forall>e s1. calculate_one w (c_debug self) cxt d rst s = (Inl e, s1) \<longrightarrow>
            cache s1 d = None \<and>
            count_list (calls s1) d \<le> count_list (calls s) d + 1 \<and>
            (\<forall>rst'. \<exists>xs. stack (snd (calculate_one w (c_debug self) cxt d rst' s1)) =
                             (if rst' then [] else stack s1) @ d # xs))"
proof (intro conjI allI impI)
  fix v s1 assume f: "calculate_one w (c_debug self) cxt d rst s = (Inr v, s1)"
  obtain cs where cs: "calls s1 = calls s @ cs @ [d]" "d \<notin> set cs"
    using first_request_calls[OF assms f] by blast
  show "count_list (calls s1) d = count_list (calls s) d + 1"
    using cs by (simp add: count_list_0_iff)
  have c: "cache s1 d = Some v" using calculate_one_Inr[OF f] .
  show "calculate_one w (c_debug self) cxt d rst' s2 = (Inr v, s2)" if "cache s1 \<subseteq>\<^sub>m cache s2" for s2 rst'
  proof -
    have "cache s2 d = Some v" using that c by (auto simp: map_le_def dom_def)
    then show ?thesis by (rule cache_hit)
  qed
  show "cache s1 \<subseteq>\<^sub>m cache (snd (calculate_one w (c_debug self) cxt e rst' s1))" for e rst'
    by (rule cache_mono)
  show "cache s1 \<subseteq>\<^sub>m cache (snd (calculate_loop w self cxt ds s1))" for ds
    by (rule loop_cache_mono)
next
  fix e s1 assume f: "calculate_one w (c_debug self) cxt d rst s = (Inl e, s1)"
  show n: "cache s1 d = None" using failed_request_not_memoized[OF assms f] .
  show "count_list (calls s1) d \<le> count_list (calls s) d + 1" using failed_request_calls[OF assms f] .
  show "\<exists>xs. stack (snd (calculate_one w (c_debug self) cxt d rst' s1)) =
                             (if rst' then [] else stack s1) @ d # xs" for rst'
    using calculate_one_miss_stack[OF n] .
qed

theorem memoized_value_is_reused_witness:
  "cache ex_state dA = None \<and>
   calculate_one ex_world (c_debug (ex_calc [dA, dB])) (ex_cxt 1) dA True ex_state =
     (Inr 0, ex_state\<lparr>cache := [dA \<mapsto> 0], stack := [dA], has_context := {dA}, calls := [dA]\<rparr>) \<and>
   count_list [dA] dA = 1 \<and>
   calculate_one ex_world (c_debug (ex_calc [dA, dB])) (ex_cxt 1) dA False
       (ex_state\<lparr>cache := [dA \<mapsto> 0], stack := [dA], has_context := {dA}, calls := [dA]\<rparr>) =
     (Inr 0, ex_state\<lparr>cache := [dA \<mapsto> 0], stack := [dA], has_context := {dA}, calls := [dA]\<rparr>) \<and>
   calls (snd (calculate_iter ex_world (ex_calc [dA, dB]) (ex_cxt 1) ex_state)) = [dA, dB] \<and>
   cache ex_state dM = None \<and>
   fst (calculate_one ex_world (c_debug (ex_calc [dM, dF])) (ex_cxt 1) dM True ex_state) =
     Inl (MissingValueException (OtherError ''undefined'')) \<and>
   cache (snd (calculate_one ex_world (c_debug (ex_calc [dM, dF])) (ex_cxt 1) dM True ex_state)) dM = None"
proof -
  let ?s1 = "ex_state\<lparr>cache := [dA \<mapsto> 0], stack := [dA], has_context := {dA}, calls := [dA]\<rparr>"
  have m: "cache ex_state dA = None" "cache ex_state dM = None" by (simp_all add: ex_state_def)
  have f: "calculate_one ex_world (c_debug (ex_calc [dA, dB])) (ex_cxt 1) dA True ex_state = (Inr 0, ?s1)"
    by (simp add: ex_defs eval_defs)
  note T = memoized_value_is_reused[OF m(1), of ex_world "ex_calc [dA, dB]" "ex_cxt 1" True]
  have "count_list (calls ?s1) dA = count_list (calls ex_state) dA + 1"
    using T f by blast
  then have 1: "count_list [dA] dA = 1" by (simp add: ex_state_def)
  have 2: "calculate_one ex_world (c_debug (ex_calc [dA, dB])) (ex_cxt 1) dA False ?s1 = (Inr 0, ?s1)"
    using T f map_le_refl[of "cache ?s1"] by blast
  have 3: "calls (snd (calculate_iter ex_world (ex_calc [dA, dB]) (ex_cxt 1) ex_state)) = [dA, dB]"
    by (simp add: ex_defs eval_defs)
  obtain s1 where g: "calculate_one ex_world (c_debug (ex_calc [dM, dF])) (ex_cxt 1) dM True ex_state =
      (Inl (MissingValueException (OtherError ''undefined'')), s1)"
    by (simp add: ex_defs eval_defs)
  have 4: "cache s1 dM = None"
    using memoized_value_is_reused[OF m(2), of ex_world "ex_calc [dM, dF]" "ex_cxt 1" True] g by blast
  show ?thesis using m f 1 2 3 4 g by simp
qed

subsection \<open>The cache of one structure is not seen by another\<close>

text \<open>
  Claim C9. \<^verbatim>\<open>_calculate\<close> replaces the cache by an empty one before its loop starts, so an
  evaluation begins with an empty memoization cache. Whatever an earlier evaluation left
  behind (cache, diagnostic stack, context attributes), the results yielded for a structure
  and the cache the evaluation ends with are the same from every starting state; in
  particular the results for a context \<open>cxt\<close> after another context \<open>cxt'\<close> has been
  evaluated are those of evaluating \<open>cxt\<close> from any other state.
\<close>

theorem evaluation_ignores_earlier_cache:
  fixes s t :: "'v state" and w :: "('m, 'v) world"
  shows "cache (s\<lparr>cache := Map.empty\<rparr>) = Map.empty \<and>
         calculate_iter w self cxt s = calculate_loop w self cxt (c_descriptors self) (s\<lparr>cache := Map.empty\<rparr>) \<and>
         fst (calculate_iter w self cxt s) = fst (calculate_iter w self cxt t) \<and>
         cache (snd (calculate_iter w self cxt s)) = cache (snd (calculate_iter w self cxt t)) \<and>
         fst (calculate_iter w self cxt (snd (calculate_iter w self cxt' s))) = fst (calculate_iter w self cxt t)"
proof -
  have "cache (u\<lparr>cache := Map.empty\<rparr>) = cache (v\<lparr>cache := Map.empty\<rparr>)" for u v :: "'v state" by simp
  then have "fst (calculate_iter w self cxt u) = fst (calculate_iter w self cxt v) \<and>
        cache (snd (calculate_iter w self cxt u)) = cache (snd (calculate_iter w self cxt v))" for u v :: "'v state"
    unfolding calculate_iter_def by (rule loop_rel)
  then have "fst (calculate_iter w self cxt s) = fst (calculate_iter w self cxt t)"
    "cache (snd (calculate_iter w self cxt s)) = cache (snd (calculate_iter w self cxt t))"
    "fst (calculate_iter w self cxt (snd (calculate_iter w self cxt' s))) = fst (calculate_iter w self cxt t)"
    by blast+
  moreover have "calculate_iter w self cxt s =
      calculate_loop w self cxt (c_descriptors self) (s\<lparr>cache := Map.empty\<rparr>)"
    by (simp add: calculate_iter_def)
  ultimately show ?thesis by simp
qed


subsection \<open>The context attribute of the descriptor objects\<close>





subsection \<open>Duplicate names\<close>

text \<open>
  Claim C3 says that registering a unit whose canonical name is the name of a registered
  unit raises the duplicate-name error. The test of line 89 comes first: with
  \<^verbatim>\<open>ignore_3D\<close> set, a unit that requires 3D coordinates is skipped before its name is
  looked up. After \<open>dT\<close> has been registered, registering \<open>dT\<close> again with \<^verbatim>\<open>ignore_3D\<close>
  returns normally and changes nothing.
\<close>

theorem duplicate_name_counterexample:
  "fst (init (Instance dT) False) = Inr () \<and>
   c_descriptors (snd (init (Instance dT) False)) = [dT] \<and>
   c_name_dict (snd (init (Instance dT) False)) (name dT) = Some dT \<and>
   fst (register (Instance dT) True (snd (init (Instance dT) False))) = Inr () \<and>
   c_descriptors (snd (register (Instance dT) True (snd (init (Instance dT) False)))) = [dT]"
  by (simp add: reg_defs dT_def)

text \<open>
  Claim C3 as amended. The name lookup and the output sequence agree after any
  registrations from an empty registry, whether they returned or raised: the registered
  units have pairwise different names, and the lookup knows exactly them. A registration
  that is not check-only and not skipped by the test of \<^verbatim>\<open>ignore_3D\<close> raises the
  duplicate-name error, naming the unit and the registered one, when a registered unit has
  the same canonical name, and it returns normally when no registered unit has that name.
  A check-only registration never raises and never changes the output sequence or the name
  lookup, so a unit can be registered directly and as a dependency only, in either order.
\<close>

theorem duplicate_name_is_rejected:
  "names_inv new_calculator \<and>
   (names_inv self \<longrightarrow> names_inv (snd (register x ignore_3D self))) \<and>
   (names_inv self \<longrightarrow> e \<in> set (c_descriptors self) \<longrightarrow> name d = name e \<longrightarrow>
      \<not> (ignore_3D \<and> require_3D d) \<longrightarrow>
      fst (register_one d False ignore_3D self) = Inl (DuplicatedDescriptorName d e) \<and>
      fst (register (Instance d) ignore_3D self) = Inl (DuplicatedDescriptorName d e)) \<and>
   (c_name_dict self (name d) = Some old \<longrightarrow> \<not> (ignore_3D \<and> require_3D d) \<longrightarrow>
      fst (register_one d False ignore_3D self) = Inl (DuplicatedDescriptorName d old)) \<and>
   (c_name_dict self (name d) = None \<longrightarrow> fst (register_one d False ignore_3D self) = Inr ()) \<and>
   (names_inv self \<longrightarrow> name d \<notin> name ` set (c_descriptors self) \<longrightarrow>
      fst (register_one d False ignore_3D self) = Inr ()) \<and>
   fst (register_one d True ignore_3D self) = Inr () \<and>
   c_descriptors (snd (register_one d True ignore_3D self)) = c_descriptors self \<and>
   c_name_dict (snd (register_one d True ignore_3D self)) = c_name_dict self \<and>
   (c_name_dict self (name d) = None \<longrightarrow>
      fst (register_one d False ignore_3D (snd (register_one d True i' self))) = Inr ()) \<and>
   fst (register_one d True i' (snd (register_one d False ignore_3D self))) = Inr ()"
proof -
  have dup: "fst (register_one d False ignore_3D self) = Inl (DuplicatedDescriptorName d o')"
    if "c_name_dict self (name d) = Some o'" "\<not> (ignore_3D \<and> require_3D d)" for o'
    using that by (simp add: register_one_top)
  have free: "fst (register_one d False ignore_3D c) = Inr ()" if "c_name_dict c (name d) = None" for c
    using that register_one_names(3)[of d ignore_3D c] by simp
  have a: "fst (register_one d False ignore_3D self) = Inl (DuplicatedDescriptorName d e) \<and>
      fst (register (Instance d) ignore_3D self) = Inl (DuplicatedDescriptorName d e)"
    if "names_inv self" "e \<in> set (c_descriptors self)" "name d = name e" "\<not> (ignore_3D \<and> require_3D d)"
  proof -
    have "c_name_dict self (name d) = Some e" using that(1,2,3) by (simp add: names_inv_def)
    then show ?thesis using dup that(4) by simp
  qed
  have b: "fst (register_one d False ignore_3D self) = Inr ()"
    if "names_inv self" "name d \<notin> name ` set (c_descriptors self)"
  proof -
    have "c_name_dict self (name d) = None"
    proof (cases "c_name_dict self (name d)")
      case None then show ?thesis .
    next
      case (Some u)
      then have "u \<in> set (c_descriptors self) \<and> name u = name d" using that(1) by (simp add: names_inv_def)
      then have "name d \<in> name ` set (c_descriptors self)" by (metis imageI)
      then show ?thesis using that(2) by simp
    qed
    then show ?thesis by (rule free)
  qed
  have co: "fst (register_one d True j c) = Inr ()"
    "c_descriptors (snd (register_one d True j c)) = c_descriptors c"
    "c_name_dict (snd (register_one d True j c)) = c_name_dict c" for j c
    using check_only_frame(1)[of d j c] by simp_all
  have c: "fst (register_one d False ignore_3D (snd (register_one d True i' self))) = Inr ()"
    if "c_name_dict self (name d) = None"
    using free[of "snd (register_one d True i' self)"] co(3)[of i' self] that by simp
  show ?thesis
    using names_inv_new names_inv_register(1)[of self x ignore_3D] a dup free[of self] b co c
    by blast
qed

theorem duplicate_name_is_rejected_witness:
  "names_inv (snd (init (Instance dA) False)) \<and>
   dA \<in> set (c_descriptors (snd (init (Instance dA) False))) \<and>
   fst (register (Instance dA) False (snd (init (Instance dA) False))) = Inl (DuplicatedDescriptorName dA dA) \<and>
   fst (init (Iterable [Instance dA, Instance dB]) False) = Inr () \<and>
   fst (init (Iterable [Instance dB, Instance dA]) False) = Inr () \<and>
   c_descriptors (snd (init (Iterable [Instance dB, Instance dA]) False)) = [dB, dA]"
proof -
  let ?c = "snd (init (Instance dA) False)"
  have n: "names_inv ?c"
    using duplicate_name_is_rejected[of new_calculator "Instance dA" False] by (simp add: init_def)
  have m: "dA \<in> set (c_descriptors ?c)" by (simp add: reg_defs dA_def)
  have "fst (register (Instance dA) False ?c) = Inl (DuplicatedDescriptorName dA dA)"
    using duplicate_name_is_rejected[of ?c _ False dA dA] n m by blast
  moreover have "fst (init (Iterable [Instance dA, Instance dB]) False) = Inr ()"
    "fst (init (Iterable [Instance dB, Instance dA]) False) = Inr ()"
    "c_descriptors (snd (init (Iterable [Instance dB, Instance dA]) False)) = [dB, dA]"
    by (simp_all add: reg_defs dA_def dB_def)
  ultimately show ?thesis using n m by simp
qed

subsection \<open>The aggregate requirement flags\<close>

text \<open>
  Claim C7, as stated: after any sequence of registrations each of the three aggregate
  requirement flags is a single boolean, the logical OR of the flag over every reachable unit.
  The registry keeps a boolean only for the 3D requirement; for explicit hydrogens and for the
  kekulized form it keeps the set of the values that occur (\<open>_explicit_hydrogens\<close> and
  \<open>_kekulizes\<close> are built with \<open>set.add\<close>).  After registering a unit that does not need
  explicit hydrogens and one that does, the aggregate is the two-element set of both values,
  which no single boolean describes.
\<close>

theorem aggregate_flags_counterexample:
  "fst (init (Iterable [Instance dA, Instance dH]) False) = Inr () \<and>
   c_descriptors (snd (init (Iterable [Instance dA, Instance dH]) False)) = [dA, dH] \<and>
   c_explicit_hydrogens (snd (init (Iterable [Instance dA, Instance dH]) False)) = {False, True} \<and>
   c_explicit_hydrogens (snd (init (Iterable [Instance dA, Instance dH]) False)) \<noteq>
     {explicit_hydrogens dA \<or> explicit_hydrogens dH} \<and>
   c_kekulizes (snd (init (Iterable [Instance dA, Instance dH]) False)) = {False}"
  by (auto simp: reg_defs dA_def dH_def)

text \<open>
  Claim C7, amended: the 3D aggregate is a boolean, the logical OR of \<open>require_3D\<close> over every
  reachable unit; the hydrogen and kekulize aggregates are the sets of the values of
  \<open>explicit_hydrogens\<close> and \<open>kekulize\<close> over every reachable unit, so \<open>True\<close> is a member iff
  some reachable unit sets the flag and \<open>False\<close> is a member iff some reachable unit clears it.
  The reachable units are the registered units together with their direct and transitive
  dependencies, whether or not a dependency is registered itself.  The property holds for the
  empty registry and every successful registration keeps it, so it holds after any sequence
  of successful registrations on a new calculator; a successful registration adds exactly the
  contribution of the closures of the units it appends.
\<close>

theorem aggregate_flags_cover_reachable_units:
  "agg_inv new_calculator \<and>
   (fst (register x ignore_3D self) = Inr () \<longrightarrow>
      c_require_3D (snd (register x ignore_3D self)) =
        (c_require_3D self \<or>
         (\<exists>u\<in>set (concat (map closure (kept ignore_3D (flatten x)))). require_3D u)) \<and>
      c_explicit_hydrogens (snd (register x ignore_3D self)) =
        c_explicit_hydrogens self \<union>
        explicit_hydrogens ` set (concat (map closure (kept ignore_3D (flatten x)))) \<and>
      c_kekulizes (snd (register x ignore_3D self)) =
        c_kekulizes self \<union> kekulize ` set (concat (map closure (kept ignore_3D (flatten x)))) \<and>
      reachable (snd (register x ignore_3D self)) =
        reachable self @ concat (map closure (kept ignore_3D (flatten x))) \<and>
      (agg_inv self \<longrightarrow> agg_inv (snd (register x ignore_3D self)))) \<and>
   (agg_inv self \<longrightarrow>
      c_require_3D self = (\<exists>u\<in>set (reachable self). require_3D u) \<and>
      (True \<in> c_explicit_hydrogens self) = (\<exists>u\<in>set (reachable self). explicit_hydrogens u) \<and>
      (False \<in> c_explicit_hydrogens self) = (\<exists>u\<in>set (reachable self). \<not> explicit_hydrogens u) \<and>
      (True \<in> c_kekulizes self) = (\<exists>u\<in>set (reachable self). kekulize u) \<and>
      (False \<in> c_kekulizes self) = (\<exists>u\<in>set (reachable self). \<not> kekulize u)) \<and>
   (u \<in> set (closure d) \<longleftrightarrow>
      u = d \<or> (\<exists>k dep. (k, Some dep) \<in> set (dependencies d) \<and> u \<in> set (closure dep))) \<and>
   (fst (register_seq xs new_calculator) = Inr () \<longrightarrow>
      c_require_3D (snd (register_seq xs new_calculator)) =
        (\<exists>u\<in>set (reachable (snd (register_seq xs new_calculator))). require_3D u) \<and>
      c_explicit_hydrogens (snd (register_seq xs new_calculator)) =
        explicit_hydrogens ` set (reachable (snd (register_seq xs new_calculator))) \<and>
      c_kekulizes (snd (register_seq xs new_calculator)) =
        kekulize ` set (reachable (snd (register_seq xs new_calculator))) \<and>
      reachable (snd (register_seq xs new_calculator)) = concat (map closure (kept_seq xs)))"
proof -
  have sq: "c_require_3D (snd (register_seq xs new_calculator)) =
        (\<exists>u\<in>set (reachable (snd (register_seq xs new_calculator))). require_3D u) \<and>
      c_explicit_hydrogens (snd (register_seq xs new_calculator)) =
        explicit_hydrogens ` set (reachable (snd (register_seq xs new_calculator))) \<and>
      c_kekulizes (snd (register_seq xs new_calculator)) =
        kekulize ` set (reachable (snd (register_seq xs new_calculator))) \<and>
      reachable (snd (register_seq xs new_calculator)) = concat (map closure (kept_seq xs))"
    if ok: "fst (register_seq xs new_calculator) = Inr ()"
  proof -
    have "reachable (snd (register_seq xs new_calculator)) =
        reachable new_calculator @ concat (map closure (kept_seq xs))"
      using reachable_registered[OF register_seq_registered[OF ok]] .
    then have "reachable (snd (register_seq xs new_calculator)) = concat (map closure (kept_seq xs))"
      by (simp add: reachable_def new_calculator_def)
    then show ?thesis using register_seq_agg_inv[OF ok] by (simp add: agg_inv_def)
  qed
  have step: "c_require_3D (snd (register x ignore_3D self)) =
        (c_require_3D self \<or>
         (\<exists>u\<in>set (concat (map closure (kept ignore_3D (flatten x)))). require_3D u)) \<and>
      c_explicit_hydrogens (snd (register x ignore_3D self)) =
        c_explicit_hydrogens self \<union>
        explicit_hydrogens ` set (concat (map closure (kept ignore_3D (flatten x)))) \<and>
      c_kekulizes (snd (register x ignore_3D self)) =
        c_kekulizes self \<union> kekulize ` set (concat (map closure (kept ignore_3D (flatten x)))) \<and>
      reachable (snd (register x ignore_3D self)) =
        reachable self @ concat (map closure (kept ignore_3D (flatten x))) \<and>
      (agg_inv self \<longrightarrow> agg_inv (snd (register x ignore_3D self)))"
    if ok: "fst (register x ignore_3D self) = Inr ()"
  proof -
    have r: "registered self (kept ignore_3D (flatten x)) (snd (register x ignore_3D self))"
      using register_registered(1)[of x ignore_3D self] ok by blast
    show ?thesis
      using r[unfolded registered_unfold] reachable_registered[OF r] agg_inv_registered[OF _ r]
      by blast
  qed
  have mem: "agg_inv self \<longrightarrow>
      c_require_3D self = (\<exists>u\<in>set (reachable self). require_3D u) \<and>
      (True \<in> c_explicit_hydrogens self) = (\<exists>u\<in>set (reachable self). explicit_hydrogens u) \<and>
      (False \<in> c_explicit_hydrogens self) = (\<exists>u\<in>set (reachable self). \<not> explicit_hydrogens u) \<and>
      (True \<in> c_kekulizes self) = (\<exists>u\<in>set (reachable self). kekulize u) \<and>
      (False \<in> c_kekulizes self) = (\<exists>u\<in>set (reachable self). \<not> kekulize u)"
    by (auto simp: agg_inv_def)
  show ?thesis using agg_inv_new step mem closure_iff[of u d] sq by blast
qed

theorem aggregate_flags_cover_reachable_units_witness:
  "fst (init (Iterable [Instance dH, Instance dU]) False) = Inr () \<and>
   agg_inv (snd (init (Iterable [Instance dH, Instance dU]) False)) \<and>
   reachable (snd (init (Iterable [Instance dH, Instance dU]) False)) = [dH, dU, dT] \<and>
   c_descriptors (snd (init (Iterable [Instance dH, Instance dU]) False)) = [dH, dU] \<and>
   c_require_3D (snd (init (Iterable [Instance dH, Instance dU]) False)) \<and>
   c_explicit_hydrogens (snd (init (Iterable [Instance dH, Instance dU]) False)) = {True, False}"
proof -
  have ok: "fst (register (Iterable [Instance dH, Instance dU]) False new_calculator) = Inr ()"
    by (simp add: reg_defs dH_def dU_def dT_def)
  have "agg_inv (snd (register (Iterable [Instance dH, Instance dU]) False new_calculator))"
    using aggregate_flags_cover_reachable_units[of "Iterable [Instance dH, Instance dU]" False new_calculator dT dU "[]"] ok
    by blast
  moreover have "reachable (snd (init (Iterable [Instance dH, Instance dU]) False)) = [dH, dU, dT]"
    "c_descriptors (snd (init (Iterable [Instance dH, Instance dU]) False)) = [dH, dU]"
    by (simp_all add: reg_defs reachable_def dH_def dU_def dT_def)
  moreover have "c_require_3D (snd (init (Iterable [Instance dH, Instance dU]) False))"
    by (simp add: reg_defs dH_def dU_def dT_def)
  moreover have "c_explicit_hydrogens (snd (init (Iterable [Instance dH, Instance dU]) False)) = {True, False}"
    by (auto simp: reg_defs dH_def dU_def dT_def)
  ultimately show ?thesis using ok by (simp add: init_def)
qed

subsection \<open>The 3D requirement and \<open>ignore_3D\<close>\<close>

text \<open>
  Claim C4, as stated: the aggregate 3D flag is true iff some registered unit or transitively
  reachable dependency requires 3D; and when registering with \<open>ignore_3D\<close>, every unit that
  requires 3D, anywhere in the dependency closure, is skipped and contributes nothing to the
  aggregate flag or to the output sequence.
  The second half fails for dependencies: \<open>_register_one\<close> registers the dependencies of a
  kept unit with \<open>check_only=True\<close> and without \<open>ignore_3D\<close> (line 98), so a dependency that
  requires 3D is not skipped.  Registering with \<open>ignore_3D\<close> a unit that does not require 3D
  itself but depends on one that does keeps the unit and sets the aggregate flag.
\<close>

theorem ignore_3D_counterexample:
  "fst (init (Instance dU) True) = Inr () \<and>
   \<not> require_3D dU \<and> require_3D dT \<and> dT \<in> set (closure dU) \<and>
   c_descriptors (snd (init (Instance dU) True)) = [dU] \<and>
   c_require_3D (snd (init (Instance dU) True)) \<and>
   \<not> c_require_3D new_calculator"
  by (simp add: reg_defs dU_def dT_def)

text \<open>
  Claim C4, amended: the aggregate 3D flag of the empty registry is the disjunction of
  \<open>require_3D\<close> over its reachable units (the registered units and their direct and
  transitive dependencies), and every successful registration keeps that equality, so it
  holds after any sequence of successful registrations on a new calculator.
  With \<open>ignore_3D\<close>, registering a unit that itself requires 3D does nothing at all; a
  successful registration appends exactly the requested units that do not require 3D, in
  order, and sets the flag iff it was set or some kept unit has a unit that requires 3D in its
  dependency closure.
\<close>

theorem ignore_3D_skips_registered_units:
  "c_require_3D new_calculator = (\<exists>u\<in>set (reachable new_calculator). require_3D u) \<and>
   (fst (register x ignore_3D self) = Inr () \<longrightarrow>
      c_require_3D self = (\<exists>u\<in>set (reachable self). require_3D u) \<longrightarrow>
      c_require_3D (snd (register x ignore_3D self)) =
        (\<exists>u\<in>set (reachable (snd (register x ignore_3D self))). require_3D u)) \<and>
   (require_3D d \<longrightarrow> register_one d check_only True self = (Inr (), self)) \<and>
   (fst (register x True self) = Inr () \<longrightarrow>
      c_descriptors (snd (register x True self)) =
        c_descriptors self @ filter (\<lambda>d. \<not> require_3D d) (flatten x) \<and>
      c_require_3D (snd (register x True self)) =
        (c_require_3D self \<or>
         (\<exists>d\<in>set (flatten x). \<not> require_3D d \<and> (\<exists>u\<in>set (closure d). require_3D u)))) \<and>
   (fst (register_seq xs new_calculator) = Inr () \<longrightarrow>
      c_require_3D (snd (register_seq xs new_calculator)) =
        (\<exists>u\<in>set (reachable (snd (register_seq xs new_calculator))). require_3D u))"
proof -
  have sq: "c_require_3D (snd (register_seq xs new_calculator)) =
        (\<exists>u\<in>set (reachable (snd (register_seq xs new_calculator))). require_3D u)"
    if ok: "fst (register_seq xs new_calculator) = Inr ()"
    using register_seq_agg_inv[OF ok] by (simp add: agg_inv_def)
  have new: "c_require_3D new_calculator = (\<exists>u\<in>set (reachable new_calculator). require_3D u)"
    by (simp add: new_calculator_def reachable_def)
  have keep: "c_require_3D (snd (register x ignore_3D self)) =
        (\<exists>u\<in>set (reachable (snd (register x ignore_3D self))). require_3D u)"
    if ok: "fst (register x ignore_3D self) = Inr ()"
      and inv: "c_require_3D self = (\<exists>u\<in>set (reachable self). require_3D u)"
  proof -
    have r: "registered self (kept ignore_3D (flatten x)) (snd (register x ignore_3D self))"
      using register_registered(1)[of x ignore_3D self] ok by blast
    have "c_require_3D (snd (register x ignore_3D self)) =
        (c_require_3D self \<or>
         (\<exists>u\<in>set (concat (map closure (kept ignore_3D (flatten x)))). require_3D u))"
      using r[unfolded registered_unfold] by blast
    then show ?thesis
      unfolding reachable_registered[OF r] inv by (simp add: bex_Un)
  qed
  have ign: "c_descriptors (snd (register x True self)) =
        c_descriptors self @ filter (\<lambda>d. \<not> require_3D d) (flatten x) \<and>
      c_require_3D (snd (register x True self)) =
        (c_require_3D self \<or>
         (\<exists>d\<in>set (flatten x). \<not> require_3D d \<and> (\<exists>u\<in>set (closure d). require_3D u)))"
    if ok: "fst (register x True self) = Inr ()"
  proof -
    have r: "registered self (kept True (flatten x)) (snd (register x True self))"
      using register_registered(1)[of x True self] ok by blast
    have k: "kept True (flatten x) = filter (\<lambda>d. \<not> require_3D d) (flatten x)"
      by (simp add: kept_def)
    show ?thesis
      using r[unfolded registered_unfold k] by auto
  qed
  show ?thesis using new keep ign register_one_skip[of d check_only self] sq by blast
qed

theorem ignore_3D_skips_registered_units_witness:
  "fst (register (Iterable [Instance dA, Instance dT, Instance dB]) True new_calculator) = Inr () \<and>
   require_3D dT \<and>
   register_one dT False True new_calculator = (Inr (), new_calculator) \<and>
   flatten (Iterable [Instance dA, Instance dT, Instance dB]) = [dA, dT, dB] \<and>
   c_descriptors (snd (register (Iterable [Instance dA, Instance dT, Instance dB]) True new_calculator))
     = [dA, dB] \<and>
   \<not> c_require_3D (snd (register (Iterable [Instance dA, Instance dT, Instance dB]) True new_calculator)) \<and>
   reachable (snd (register (Iterable [Instance dA, Instance dT, Instance dB]) True new_calculator))
     = [dA, dB, dA]"
proof -
  let ?x = "Iterable [Instance dA, Instance dT, Instance dB]"
  have ok: "fst (register ?x True new_calculator) = Inr ()"
    by (simp add: reg_defs dA_def dT_def dB_def)
  have t: "require_3D dT" by (simp add: dT_def)
  have f: "flatten ?x = [dA, dT, dB]" by simp
  have c: "\<not> require_3D dA" "\<not> require_3D dB" "closure dA = [dA]" "closure dB = [dB, dA]"
    by (simp_all add: dA_def dB_def)
  have n: "\<not> c_require_3D new_calculator" "c_descriptors new_calculator = []"
    by (simp_all add: new_calculator_def)
  note th = ignore_3D_skips_registered_units[of ?x True new_calculator dT False "[]"]
  have 1: "register_one dT False True new_calculator = (Inr (), new_calculator)"
    using th t by blast
  have 2: "c_descriptors (snd (register ?x True new_calculator)) = [dA, dB]"
    using th ok t c n by simp
  have 3: "\<not> c_require_3D (snd (register ?x True new_calculator))"
    using th ok t c n by simp
  have 4: "reachable (snd (register ?x True new_calculator)) = [dA, dB, dA]"
    using 2 c by (simp add: reachable_def)
  show ?thesis using ok t f 1 2 3 4 by blast
qed

subsection \<open>Results and column headers follow the registration order\<close>

text \<open>
  Claim C8. A successful registration appends the units it keeps to the output sequence in the
  order in which they are requested, so after a sequence of successful registrations on a new
  calculator the output sequence lists the kept units in registration order. The column headers of the tabular export are the names
  of the units of the output sequence, in that order, and consuming \<^verbatim>\<open>_calculate\<close> for any
  structure yields as many results as there are columns, the result at index \<open>i\<close> being
  that of the unit at index \<open>i\<close> of the output sequence: it is the outcome of the request for
  that unit, a value yielded there is the value the cache holds for that unit when the
  evaluation ends, and a failure yielded there carries a diagnostic stack that starts with
  that unit. Units evaluated earlier as dependencies of other units do not move a result.
\<close>

theorem results_follow_registration_order:
  fixes s :: "'v state" and w :: "('m, 'v) world"
  shows
  "(fst (register x ignore_3D self0) = Inr () \<longrightarrow>
      c_descriptors (snd (register x ignore_3D self0)) =
        c_descriptors self0 @ kept ignore_3D (flatten x)) \<and>
   columns self = map name (c_descriptors self) \<and>
   (\<exists>rs. fst (calculate_iter w self cxt s) = Inr rs \<and>
      length rs = length (c_descriptors self) \<and> length rs = length (columns self) \<and>
      (\<forall>i<length rs.
          columns self ! i = name (c_descriptors self ! i) \<and>
          rs ! i = to_result
             (fst (calculate_one w (c_debug self) cxt (c_descriptors self ! i) True
                (snd (calculate_loop w self cxt (take i (c_descriptors self)) (s\<lparr>cache := Map.empty\<rparr>)))))
             (stack (snd (calculate_one w (c_debug self) cxt (c_descriptors self ! i) True
                (snd (calculate_loop w self cxt (take i (c_descriptors self)) (s\<lparr>cache := Map.empty\<rparr>)))))) \<and>
          (\<forall>v. rs ! i = Value v \<longrightarrow>
               cache (snd (calculate_iter w self cxt s)) (c_descriptors self ! i) = Some v) \<and>
          (\<forall>e st. rs ! i = Missing e st \<longrightarrow> st \<noteq> [] \<and> hd st = c_descriptors self ! i) \<and>
          (\<forall>e st. rs ! i = Error e st \<longrightarrow> st \<noteq> [] \<and> hd st = c_descriptors self ! i))) \<and>
   (fst (register_seq xs new_calculator) = Inr () \<longrightarrow>
      c_descriptors (snd (register_seq xs new_calculator)) = kept_seq xs)"
proof -
  let ?ds = "c_descriptors self" and ?s0 = "s\<lparr>cache := Map.empty\<rparr>"
  have sq: "fst (register_seq xs new_calculator) = Inr () \<longrightarrow>
      c_descriptors (snd (register_seq xs new_calculator)) = kept_seq xs"
    using register_seq_registered[of xs new_calculator]
    by (simp add: registered_def new_calculator_def)
  have reg: "fst (register x ignore_3D self0) = Inr () \<longrightarrow>
      c_descriptors (snd (register x ignore_3D self0)) =
        c_descriptors self0 @ kept ignore_3D (flatten x)"
    using register_registered(1)[of x ignore_3D self0] by (simp add: registered_def)
  obtain rs where rs: "fst (calculate_loop w self cxt ?ds ?s0) = Inr rs" "length rs = length ?ds"
    using calculate_loop_Inr[of w self cxt ?ds ?s0] by blast
  have al: "columns self ! i = name (?ds ! i) \<and>
          rs ! i = to_result
             (fst (calculate_one w (c_debug self) cxt (?ds ! i) True
                (snd (calculate_loop w self cxt (take i ?ds) ?s0))))
             (stack (snd (calculate_one w (c_debug self) cxt (?ds ! i) True
                (snd (calculate_loop w self cxt (take i ?ds) ?s0))))) \<and>
          (\<forall>v. rs ! i = Value v \<longrightarrow>
               cache (snd (calculate_loop w self cxt ?ds ?s0)) (?ds ! i) = Some v) \<and>
          (\<forall>e st. rs ! i = Missing e st \<longrightarrow> st \<noteq> [] \<and> hd st = ?ds ! i) \<and>
          (\<forall>e st. rs ! i = Error e st \<longrightarrow> st \<noteq> [] \<and> hd st = ?ds ! i)"
    if "i < length rs" for i
  proof -
    have i: "i < length ?ds" using that rs(2) by simp
    have "columns self ! i = name (?ds ! i)" using i by (simp add: columns_def)
    then show ?thesis
      using loop_result_aligned[OF rs(1) i] calculate_loop_nth[OF rs(1) i] by blast
  qed
  have "fst (calculate_iter w self cxt s) = Inr rs \<and>
      length rs = length ?ds \<and> length rs = length (columns self) \<and>
      (\<forall>i<length rs.
          columns self ! i = name (?ds ! i) \<and>
          rs ! i = to_result
             (fst (calculate_one w (c_debug self) cxt (?ds ! i) True
                (snd (calculate_loop w self cxt (take i ?ds) ?s0))))
             (stack (snd (calculate_one w (c_debug self) cxt (?ds ! i) True
                (snd (calculate_loop w self cxt (take i ?ds) ?s0))))) \<and>
          (\<forall>v. rs ! i = Value v \<longrightarrow>
               cache (snd (calculate_iter w self cxt s)) (?ds ! i) = Some v) \<and>
          (\<forall>e st. rs ! i = Missing e st \<longrightarrow> st \<noteq> [] \<and> hd st = ?ds ! i) \<and>
          (\<forall>e st. rs ! i = Error e st \<longrightarrow> st \<noteq> [] \<and> hd st = ?ds ! i))"
    using rs al by (simp add: calculate_iter_def columns_def)
  then show ?thesis using reg sq by (auto simp: columns_def)
qed

theorem results_follow_registration_order_witness:
  "fst (init (Iterable [Instance dB, Instance dA]) False) = Inr () \<and>
   c_descriptors (snd (init (Iterable [Instance dB, Instance dA]) False)) = [dB, dA] \<and>
   columns (snd (init (Iterable [Instance dB, Instance dA]) False)) = [''B'', ''A''] \<and>
   fst (calculate_iter ex_world (snd (init (Iterable [Instance dB, Instance dA]) False)) (ex_cxt 1) ex_state)
     = Inr [Value 1, Value 0] \<and>
   calls (snd (calculate_iter ex_world (snd (init (Iterable [Instance dB, Instance dA]) False))
             (ex_cxt 1) ex_state)) = [dA, dB] \<and>
   cache (snd (calculate_iter ex_world (snd (init (Iterable [Instance dB, Instance dA]) False))
             (ex_cxt 1) ex_state)) dB = Some 1"
proof -
  let ?x = "Iterable [Instance dB, Instance dA]"
  let ?c = "snd (init ?x False)"
  have ok: "fst (init ?x False) = Inr ()" by (simp add: reg_defs dA_def dB_def)
  have n: "c_descriptors new_calculator = []" by (simp add: new_calculator_def)
  have k: "kept False (flatten ?x) = [dB, dA]" by (simp add: kept_def)
  have dbg: "c_debug ?c = False" by (simp add: reg_defs dA_def dB_def)
  note th = results_follow_registration_order[of ?x False new_calculator ?c ex_world "ex_cxt 1" ex_state "[]"]
  have ds: "c_descriptors ?c = [dB, dA]"
    using th ok n k by (simp add: init_def)
  have cols: "columns ?c = [''B'', ''A'']" using th ds by (simp add: dA_def dB_def)
  have gen: "fst (calculate_iter ex_world c (ex_cxt 1) ex_state) = Inr [Value 1, Value 0] \<and>
      calls (snd (calculate_iter ex_world c (ex_cxt 1) ex_state)) = [dA, dB]"
    if "c_descriptors c = [dB, dA]" "c_debug c = False" for c
    using that
    by (simp add: calculate_iter_def calculate_step_def reset_def add_stack_def
          get_stack_def fail_def check_rtype_def Let_def dA_def dB_def ex_world_def ex_cxt_def
          ex_state_def)
  have run: "fst (calculate_iter ex_world ?c (ex_cxt 1) ex_state) = Inr [Value 1, Value 0]"
    "calls (snd (calculate_iter ex_world ?c (ex_cxt 1) ex_state)) = [dA, dB]"
    using gen[OF ds dbg] by blast+
  obtain rs where rs: "fst (calculate_iter ex_world ?c (ex_cxt 1) ex_state) = Inr rs"
    and al: "\<forall>i<length rs. \<forall>v. rs ! i = Value v \<longrightarrow>
               cache (snd (calculate_iter ex_world ?c (ex_cxt 1) ex_state)) (c_descriptors ?c ! i) = Some v"
    using th by blast
  have "rs = [Value 1, Value 0]" using rs run(1) by simp
  then have "cache (snd (calculate_iter ex_world ?c (ex_cxt 1) ex_state)) dB = Some 1"
    using al[rule_format, of 0 1] ds by simp
  then show ?thesis using ok ds cols run by simp
qed
end
